theory Spec2Isabelle
  imports Complex_Main "HOL-Library.Word" "HOL-Library.Multiset" "HOL-Library.AList"
begin

section \<open>SimpleDistGradAggregator: data model\<close>

text \<open>
  The development embeds \<^verbatim>\<open>SimpleDistGradAggregator\<close> (both source
  variants; they differ only in profiling code and in \<^verbatim>\<open>AsyncAggregateGradHeader\<close>,
  which only the second variant has).

  Conventions.
  \<^item> \<^verbatim>\<open>size_t\<close> is 64 bits wide. Indices and element counts are naturals; the two
    products and sums of \<^verbatim>\<open>ResetState\<close> that decide the classification are reduced
    modulo \<open>2 ^ 64\<close> as the machine does. The sentinel \<^verbatim>\<open>(size_t) -1\<close> is the natural
    \<open>2 ^ 64 - 1\<close>.
  \<^item> \<^verbatim>\<open>ElemType\<close> and \<^verbatim>\<open>double\<close> values are real numbers: rounding is not modelled.
  \<^item> A call of \<^verbatim>\<open>LogicError\<close>, \<^verbatim>\<open>RuntimeError\<close> or \<^verbatim>\<open>MpiFail\<close> ends the run with the
    corresponding error value. An access the C++ standard leaves undefined (an index
    beyond a vector, a null pointer) ends it with \<open>UndefinedBehaviour\<close>. Ranks that do
    not enter the same collectives with the same element counts end with
    \<open>CollectiveMismatch\<close>, and a wait that no message can end with \<open>Deadlock\<close>.
  \<^item> The ranks of one job run the same code. A run of all ranks is a list with one entry
    per rank (the entry at index \<open>r\<close> is rank \<open>r\<close>); a collective acts on the whole list.
\<close>

datatype error =
  LogicError | RuntimeError | MpiFail | UndefinedBehaviour | CollectiveMismatch | Deadlock

datatype MatrixType = DENSE | SPARSE

record Matrix =
  NumRows :: nat
  NumCols :: nat
  DeviceId :: int
  GetMatrixType :: MatrixType
  Data :: "real list"

definition CPUDEVICE :: int where
  "CPUDEVICE = -1"

definition GetNumElements :: "Matrix \<Rightarrow> nat" where
  "GetNumElements m = NumRows m * NumCols m"

definition size_t_range :: nat where
  "size_t_range = 2 ^ 64"

text \<open>The sentinel \<^verbatim>\<open>(size_t) -1\<close> that stands for the packed buffer.\<close>

definition NONE :: nat where
  "NONE = 2 ^ 64 - 1"

text \<open>
  Modelled from the spec: the \<^verbatim>\<open>Matrix\<close> class is not part of the sources. The
  constructor \<^verbatim>\<open>Matrix(rows, cols, deviceId)\<close> gives a dense matrix of zeros, and
  \<^verbatim>\<open>SetValue(0)\<close> overwrites every element.
\<close>

definition new_Matrix :: "nat \<Rightarrow> nat \<Rightarrow> int \<Rightarrow> Matrix" where
  "new_Matrix r c d =
     \<lparr>NumRows = r, NumCols = c, DeviceId = d, GetMatrixType = DENSE, Data = replicate (r * c) 0\<rparr>"

definition SetValue :: "real \<Rightarrow> Matrix \<Rightarrow> Matrix" where
  "SetValue v m = m\<lparr>Data := map (\<lambda>_. v) (Data m)\<rparr>"

text \<open>
  Modelled from the spec: \<^verbatim>\<open>DistGradHeader\<close> is not part of the sources. The spec gives
  its layout, says that a fresh or cleared header is zero, and that \<^verbatim>\<open>Aggregate\<close> adds
  every numeric field of the other header; with the second argument set the other header
  is reset.
\<close>

record DistGradHeader =
  numSamples :: "64 word"
  numSamplesWithLabel :: "64 word"
  criterion :: real
  numEvalNode :: nat
  evalErrors :: "(real \<times> 64 word) list"

definition Create :: "nat \<Rightarrow> DistGradHeader" where
  "Create n =
     \<lparr>numSamples = 0, numSamplesWithLabel = 0, criterion = 0, numEvalNode = n,
      evalErrors = replicate n (0, 0)\<rparr>"

definition Clear :: "DistGradHeader \<Rightarrow> DistGradHeader" where
  "Clear h =
     h\<lparr>numSamples := 0, numSamplesWithLabel := 0, criterion := 0,
       evalErrors := replicate (numEvalNode h) (0, 0)\<rparr>"

definition add_evalError :: "real \<times> 64 word \<Rightarrow> real \<times> 64 word \<Rightarrow> real \<times> 64 word" where
  "add_evalError a b = (fst a + fst b, snd a + snd b)"

definition Aggregate :: "DistGradHeader \<Rightarrow> DistGradHeader \<Rightarrow> DistGradHeader" where
  "Aggregate h other =
     h\<lparr>numSamples := numSamples h + numSamples other,
       numSamplesWithLabel := numSamplesWithLabel h + numSamplesWithLabel other,
       criterion := criterion h + criterion other,
       evalErrors := map2 add_evalError (evalErrors h) (evalErrors other)\<rparr>"

text \<open>
  What a rank learns from its collaborators: the MPI facade (\<^verbatim>\<open>MainNodeRank\<close>,
  \<^verbatim>\<open>UseGpuGdr\<close>), the NCCL facade (\<^verbatim>\<open>IsSupported\<close>) and the element size
  \<^verbatim>\<open>sizeof(ElemType)\<close>. \<^verbatim>\<open>NumNodesInUse\<close> is the number of ranks of the run and
  \<^verbatim>\<open>CurrentNodeRank\<close> the index of the rank in it.
\<close>

record env =
  MainNodeRank :: nat
  UseGpuGdr :: bool
  nccl_IsSupported :: bool
  sizeof_ElemType :: nat

text \<open>
  The members of the aggregator. \<^verbatim>\<open>m_bufferedGradients\<close> is keyed by the address of the
  caller's matrix; \<^verbatim>\<open>m_pendingAsyncAggregation\<close> is \<open>None\<close> when the future is not
  valid and otherwise holds the addresses whose shadows the task was given as its
  gradient list; \<open>nothrow_new_ok\<close> is whether \<^verbatim>\<open>new (std::nothrow)\<close> finds memory on this
  rank.
\<close>

record aggregator =
  m_useAsyncAggregation :: bool
  m_packThresholdSizeInBytes :: nat
  m_syncStatsTrace :: int
  m_initialized :: bool
  m_iterationCount :: nat
  m_nccl :: bool
  m_allocator :: bool
  m_packedGradientsIndex :: "nat list"
  m_gradientIndexToAggregate :: "nat list"
  m_aggregationBuffer :: "Matrix option"
  m_intermediateCPUBuffers :: "real list list"
  m_intermediateDistributedCPUBuffer1 :: "real list"
  m_recvHeaders :: "DistGradHeader list"
  m_bufferedGradients :: "(nat \<times> Matrix) list"
  m_bufferedGradHeader :: "DistGradHeader option"
  m_pendingAsyncAggregation :: "nat list option"
  nothrow_new_ok :: bool

text \<open>The constructor.\<close>

definition SimpleDistGradAggregator :: "bool \<Rightarrow> int \<Rightarrow> nat \<Rightarrow> bool \<Rightarrow> aggregator" where
  "SimpleDistGradAggregator useAsyncAggregation syncStatsTrace packThresholdSizeInBytes mem =
     \<lparr>m_useAsyncAggregation = useAsyncAggregation,
      m_packThresholdSizeInBytes = packThresholdSizeInBytes,
      m_syncStatsTrace = syncStatsTrace,
      m_initialized = False,
      m_iterationCount = 0,
      m_nccl = False,
      m_allocator = False,
      m_packedGradientsIndex = [],
      m_gradientIndexToAggregate = [],
      m_aggregationBuffer = None,
      m_intermediateCPUBuffers = [],
      m_intermediateDistributedCPUBuffer1 = [],
      m_recvHeaders = [],
      m_bufferedGradients = [],
      m_bufferedGradHeader = None,
      m_pendingAsyncAggregation = None,
      nothrow_new_ok = mem\<rparr>"

section \<open>ResetState\<close>

definition ShouldCopyDataToCPU :: "env \<Rightarrow> int \<Rightarrow> bool" where
  "ShouldCopyDataToCPU e deviceId =
     (if deviceId = CPUDEVICE then False
      else if nccl_IsSupported e \<or> UseGpuGdr e then False
      else True)"

text \<open>The test of the classification loop, in \<^verbatim>\<open>size_t\<close> arithmetic.\<close>

definition fits_pack_threshold :: "env \<Rightarrow> aggregator \<Rightarrow> Matrix \<Rightarrow> bool" where
  "fits_pack_threshold e a g =
     (\<not> m_useAsyncAggregation a \<and>
      (sizeof_ElemType e * GetNumElements g) mod size_t_range \<le> m_packThresholdSizeInBytes a)"

text \<open>
  The first loop of \<^verbatim>\<open>ResetState\<close>, from position \<open>i\<close> on; the second component of the
  state is \<^verbatim>\<open>packedGradientsSizeInElements\<close>. A gradient is the address of the caller's
  matrix and the matrix.
\<close>

fun classify_gradients ::
  "env \<Rightarrow> int \<Rightarrow> nat \<Rightarrow> (nat \<times> Matrix) list \<Rightarrow> aggregator \<times> nat \<Rightarrow> error + aggregator \<times> nat"
where
  "classify_gradients e deviceId i [] (a, sz) = Inr (a, sz)"
| "classify_gradients e deviceId i (g # gs) (a, sz) =
     (let (a1, sz1) =
        (if fits_pack_threshold e a (snd g)
         then (a\<lparr>m_packedGradientsIndex := m_packedGradientsIndex a @ [i]\<rparr>,
               (sz + GetNumElements (snd g)) mod size_t_range)
         else (a\<lparr>m_gradientIndexToAggregate := m_gradientIndexToAggregate a @ [i]\<rparr>, sz))
      in if GetMatrixType (snd g) \<noteq> DENSE then Inl RuntimeError
         else
           let a2 =
             (if m_useAsyncAggregation a1
              then a1\<lparr>m_bufferedGradients :=
                        AList.update (fst g)
                          (new_Matrix (NumRows (snd g)) (NumCols (snd g)) deviceId)
                          (m_bufferedGradients a1)\<rparr>
              else a1)
           in classify_gradients e deviceId (Suc i) gs (a2, sz1))"

text \<open>The allocation of the pinned host buffers, one per entry of the standalone list.\<close>

definition AllocateIntermediateBuffer :: "nat \<Rightarrow> real list" where
  "AllocateIntermediateBuffer numElements = replicate numElements 0"

definition allocate_staging :: "(nat \<times> Matrix) list \<Rightarrow> nat \<Rightarrow> nat list \<Rightarrow> error + real list list" where
  "allocate_staging gradients packedGradientsSizeInElements idx =
     (if \<exists>i \<in> set idx. i \<noteq> NONE \<and> \<not> i < length gradients then Inl UndefinedBehaviour
      else Inr (map (\<lambda>i. AllocateIntermediateBuffer
                       (if i = NONE then packedGradientsSizeInElements
                        else GetNumElements (snd (gradients ! i)))) idx))"

text \<open>The second branch of \<^verbatim>\<open>ResetState\<close>: zero the shadow of every gradient.\<close>

fun zero_buffered :: "(nat \<times> Matrix) list \<Rightarrow> (nat \<times> Matrix) list \<Rightarrow> error + (nat \<times> Matrix) list" where
  "zero_buffered [] b = Inr b"
| "zero_buffered (g # gs) b =
     (case map_of b (fst g) of
        None \<Rightarrow> Inl UndefinedBehaviour
      | Some m \<Rightarrow> zero_buffered gs (AList.update (fst g) (SetValue 0 m) b))"

text \<open>The branch of \<^verbatim>\<open>ResetState\<close> taken on the first call.\<close>

definition ResetState_first ::
  "env \<Rightarrow> nat \<Rightarrow> bool \<Rightarrow> (nat \<times> Matrix) list \<Rightarrow> nat \<Rightarrow> int \<Rightarrow> aggregator \<Rightarrow> nat \<Rightarrow> error + aggregator"
where
  "ResetState_first e NumProc IsMainNode gradients numEvalNodes deviceId a1 packedGradientsSizeInElements =
     (let buf =
            (if packedGradientsSizeInElements > 0 \<and> nothrow_new_ok a1
             then Some (new_Matrix 1 packedGradientsSizeInElements deviceId)
             else None);
          a2 = a1\<lparr>m_aggregationBuffer := buf\<rparr>;
          a3 =
            (if buf = None
             then a2\<lparr>m_gradientIndexToAggregate := [0 ..< length gradients],
                      m_packedGradientsIndex := []\<rparr>
             else a2\<lparr>m_gradientIndexToAggregate := NONE # m_gradientIndexToAggregate a2\<rparr>);
          sz3 = (if buf = None then 0 else packedGradientsSizeInElements)
      in case (if ShouldCopyDataToCPU e deviceId
               then allocate_staging gradients sz3 (m_gradientIndexToAggregate a3)
               else Inr (m_intermediateCPUBuffers a3)) of
           Inl err \<Rightarrow> Inl err
         | Inr bufs \<Rightarrow>
             (let a4 = a3\<lparr>m_intermediateCPUBuffers := bufs\<rparr>;
                  a5 = (if m_useAsyncAggregation a4
                        then a4\<lparr>m_bufferedGradHeader := Some (Clear (Create numEvalNodes))\<rparr>
                        else a4)
              in Inr (if IsMainNode
                      then a5\<lparr>m_recvHeaders :=
                                m_recvHeaders a5 @ replicate (NumProc - 1) (Create numEvalNodes)\<rparr>
                      else a5)))"

text \<open>The branch taken on a later call with \<^verbatim>\<open>resetState\<close>.\<close>

definition ResetState_again :: "(nat \<times> Matrix) list \<Rightarrow> aggregator \<Rightarrow> error + aggregator" where
  "ResetState_again gradients a =
     (if m_useAsyncAggregation a \<and> m_pendingAsyncAggregation a \<noteq> None then Inl LogicError
      else if m_useAsyncAggregation a then
        (case zero_buffered gradients (m_bufferedGradients a) of
           Inl err \<Rightarrow> Inl err
         | Inr b \<Rightarrow>
             (case m_bufferedGradHeader a of
                None \<Rightarrow> Inl UndefinedBehaviour
              | Some h \<Rightarrow> Inr (a\<lparr>m_bufferedGradients := b, m_bufferedGradHeader := Some (Clear h)\<rparr>)))
      else Inr a)"

definition ResetState ::
  "env \<Rightarrow> nat \<Rightarrow> bool \<Rightarrow> (nat \<times> Matrix) list \<Rightarrow> nat \<Rightarrow> bool \<Rightarrow> aggregator \<Rightarrow> error + aggregator"
where
  "ResetState e NumProc IsMainNode gradients numEvalNodes resetState a =
     (if \<not> m_initialized a then
        (if gradients = [] then Inl UndefinedBehaviour
         else
           (let deviceId = DeviceId (snd (hd gradients));
                a0 = a\<lparr>m_initialized := True,
                       m_allocator := (m_allocator a \<or> ShouldCopyDataToCPU e deviceId)\<rparr>
            in (case classify_gradients e deviceId 0 gradients (a0, 0) of
                  Inl err \<Rightarrow> Inl err
                | Inr r \<Rightarrow>
                    ResetState_first e NumProc IsMainNode gradients numEvalNodes deviceId
                      (fst r) (snd r))))
      else if resetState then ResetState_again gradients a
      else Inr a)"

section \<open>The reduction pipeline on all ranks\<close>

text \<open>
  What \<^verbatim>\<open>AggregateGradientsImpl\<close> works on, on one rank: the aggregator, the matrices
  behind its \<^verbatim>\<open>gradients\<close> argument and the header behind \<^verbatim>\<open>headerCPU\<close>.
\<close>

record impl_rank =
  st :: aggregator
  grads :: "Matrix list"
  hdr :: DistGradHeader

text \<open>
  \<^verbatim>\<open>assert\<close> is compiled out of a release build, so the assertions of the pipeline are
  not branches of the model.
\<close>

definition zero_if_no_samples :: "impl_rank \<Rightarrow> impl_rank" where
  "zero_if_no_samples p =
     (if numSamples (hdr p) = 0 then p\<lparr>grads := map (SetValue 0) (grads p)\<rparr> else p)"

text \<open>
  Modelled from the spec: \<^verbatim>\<open>ColumnSlice\<close>, \<^verbatim>\<open>Reshaped\<close> and \<^verbatim>\<open>AssignValuesOf\<close>
  belong to the absent \<^verbatim>\<open>Matrix\<close> class. A matrix is stored column by column, so a
  reshaping keeps the element list, and the columns \<open>offset ..< offset + n\<close> of a matrix
  with one row are the elements \<open>offset ..< offset + n\<close>.
\<close>

definition assign_columns :: "nat \<Rightarrow> real list \<Rightarrow> real list \<Rightarrow> real list" where
  "assign_columns offset xs buf = take offset buf @ xs @ drop (offset + length xs) buf"

definition column_slice :: "nat \<Rightarrow> nat \<Rightarrow> real list \<Rightarrow> real list" where
  "column_slice offset n buf = take n (drop offset buf)"

text \<open>The loop that copies the packed gradients into the shared buffer.\<close>

fun pack_gradients :: "nat list \<Rightarrow> Matrix list \<Rightarrow> nat \<Rightarrow> Matrix \<Rightarrow> Matrix" where
  "pack_gradients [] gs offset buf = buf"
| "pack_gradients (i # idx) gs offset buf =
     pack_gradients idx gs (offset + GetNumElements (gs ! i))
       (buf\<lparr>Data := assign_columns offset (Data (gs ! i)) (Data buf)\<rparr>)"

text \<open>The loop that copies the reduced slices back.\<close>

fun unpack_gradients :: "nat list \<Rightarrow> nat \<Rightarrow> Matrix \<Rightarrow> Matrix list \<Rightarrow> Matrix list" where
  "unpack_gradients [] offset buf gs = gs"
| "unpack_gradients (i # idx) offset buf gs =
     unpack_gradients idx (offset + GetNumElements (gs ! i)) buf
       (gs[i := (gs ! i)\<lparr>Data := column_slice offset (GetNumElements (gs ! i)) (Data buf)\<rparr>])"

definition pack_rank :: "impl_rank \<Rightarrow> impl_rank" where
  "pack_rank p =
     (case m_aggregationBuffer (st p) of
        None \<Rightarrow> p
      | Some buf \<Rightarrow>
          p\<lparr>st := (st p)\<lparr>m_aggregationBuffer :=
                 Some (pack_gradients (m_packedGradientsIndex (st p)) (grads p) 0 buf)\<rparr>\<rparr>)"

definition unpack_rank :: "impl_rank \<Rightarrow> impl_rank" where
  "unpack_rank p =
     (case m_aggregationBuffer (st p) of
        None \<Rightarrow> p
      | Some buf \<Rightarrow>
          p\<lparr>grads := unpack_gradients (m_packedGradientsIndex (st p)) 0 buf (grads p)\<rparr>)"

text \<open>
  The buffers a transfer or a reduction reads and writes: the shared packed buffer, the
  matrix of a gradient, a pinned host buffer.
\<close>

datatype buffer =
  AggregationBuffer | Gradient nat | IntermediateCPUBuffer nat | IntermediateDistributedCPUBuffer1

definition buffer_of_index :: "nat \<Rightarrow> buffer" where
  "buffer_of_index i = (if i = NONE then AggregationBuffer else Gradient i)"

fun read_buffer :: "impl_rank \<Rightarrow> buffer \<Rightarrow> real list" where
  "read_buffer p AggregationBuffer =
     (case m_aggregationBuffer (st p) of None \<Rightarrow> [] | Some m \<Rightarrow> Data m)"
| "read_buffer p (Gradient i) = Data (grads p ! i)"
| "read_buffer p (IntermediateCPUBuffer k) = m_intermediateCPUBuffers (st p) ! k"
| "read_buffer p IntermediateDistributedCPUBuffer1 = m_intermediateDistributedCPUBuffer1 (st p)"

fun write_buffer :: "buffer \<Rightarrow> real list \<Rightarrow> impl_rank \<Rightarrow> impl_rank" where
  "write_buffer AggregationBuffer xs p =
     p\<lparr>st := (st p)\<lparr>m_aggregationBuffer :=
            map_option (\<lambda>m. m\<lparr>Data := xs\<rparr>) (m_aggregationBuffer (st p))\<rparr>\<rparr>"
| "write_buffer (Gradient i) xs p = p\<lparr>grads := (grads p)[i := (grads p ! i)\<lparr>Data := xs\<rparr>]\<rparr>"
| "write_buffer (IntermediateCPUBuffer k) xs p =
     p\<lparr>st := (st p)\<lparr>m_intermediateCPUBuffers := (m_intermediateCPUBuffers (st p))[k := xs]\<rparr>\<rparr>"
| "write_buffer IntermediateDistributedCPUBuffer1 xs p =
     p\<lparr>st := (st p)\<lparr>m_intermediateDistributedCPUBuffer1 := xs\<rparr>\<rparr>"

text \<open>The element count the pipeline passes along with a matrix.\<close>

fun num_elements :: "impl_rank \<Rightarrow> buffer \<Rightarrow> nat" where
  "num_elements p AggregationBuffer =
     (case m_aggregationBuffer (st p) of None \<Rightarrow> 0 | Some m \<Rightarrow> GetNumElements m)"
| "num_elements p (Gradient i) = GetNumElements (grads p ! i)"
| "num_elements p (IntermediateCPUBuffer k) = length (m_intermediateCPUBuffers (st p) ! k)"
| "num_elements p IntermediateDistributedCPUBuffer1 = length (m_intermediateDistributedCPUBuffer1 (st p))"

text \<open>A copy of \<open>n\<close> elements to the start of a destination.\<close>

definition copy_elements :: "real list \<Rightarrow> nat \<Rightarrow> real list \<Rightarrow> real list" where
  "copy_elements src n dst = take n src @ drop n dst"

text \<open>
  \<^verbatim>\<open>cudaMemcpy\<close> and the transfers of \<^verbatim>\<open>GPUDataTransferer\<close>. An asynchronous transfer
  takes effect where it is issued: the pipeline waits for it before the destination is
  read.
\<close>

definition CopyGPUToCPU :: "buffer \<Rightarrow> buffer \<Rightarrow> impl_rank \<Rightarrow> impl_rank" where
  "CopyGPUToCPU b host p =
     write_buffer host (copy_elements (read_buffer p b) (num_elements p b) (read_buffer p host)) p"

definition CopyCPUToGPU :: "buffer \<Rightarrow> buffer \<Rightarrow> impl_rank \<Rightarrow> impl_rank" where
  "CopyCPUToGPU host b p =
     write_buffer b (copy_elements (read_buffer p host) (num_elements p b) (read_buffer p b)) p"

subsection \<open>Collectives\<close>

text \<open>
  Modelled from the spec: the MPI and NCCL facades are not part of the sources. An
  all-reduce leaves on every rank the elementwise reduction of the buffers of all ranks;
  without an operation argument the reduction is the sum. A broadcast copies the root's
  buffer to every rank. A call of the facade is taken to succeed, so the
  \<^verbatim>\<open>|| MpiFail(...)\<close> alternatives are not taken.
\<close>

datatype MPI_Op = MPI_SUM | MPI_MAX | MPI_MIN | MPI_PROD

fun apply_op :: "MPI_Op \<Rightarrow> real \<Rightarrow> real \<Rightarrow> real" where
  "apply_op MPI_SUM x y = x + y"
| "apply_op MPI_MAX x y = max x y"
| "apply_op MPI_MIN x y = min x y"
| "apply_op MPI_PROD x y = x * y"

fun reduce_buffers :: "MPI_Op \<Rightarrow> real list list \<Rightarrow> real list" where
  "reduce_buffers op [] = []"
| "reduce_buffers op [v] = v"
| "reduce_buffers op (v # u # vs) = map2 (apply_op op) v (reduce_buffers op (u # vs))"

text \<open>
  An all-reduce, in place, of the buffer \<open>b\<close> of every rank; each rank passes the element
  count of its matrix \<open>c\<close> (the buffer itself, or the matrix that was copied into it).
\<close>

definition AllReduce :: "MPI_Op \<Rightarrow> buffer \<Rightarrow> buffer \<Rightarrow> impl_rank list \<Rightarrow> impl_rank list" where
  "AllReduce op b c w =
     (let r = reduce_buffers op (map (\<lambda>p. take (num_elements p c) (read_buffer p b)) w)
      in map (\<lambda>p. write_buffer b (copy_elements r (num_elements p c) (read_buffer p b)) p) w)"

text \<open>\<^verbatim>\<open>NcclComm::AllReduce\<close> on a list of matrices reduces each of them.\<close>

fun nccl_AllReduce :: "buffer list \<Rightarrow> impl_rank list \<Rightarrow> impl_rank list" where
  "nccl_AllReduce [] w = w"
| "nccl_AllReduce (b # bs) w = nccl_AllReduce bs (AllReduce MPI_SUM b b w)"

subsection \<open>The transports\<close>

text \<open>
  The ranks run in lockstep: they hold the same index lists, so the loop variables of
  the pipeline have the same values on all of them and are kept once.

  The staged pipeline, from iteration \<open>i\<close> of its loop on. It returns the ranks and the
  final \<^verbatim>\<open>allReduceIndex\<close>.
\<close>

function staged_loop ::
  "nat list \<Rightarrow> nat \<Rightarrow> nat \<Rightarrow> nat \<Rightarrow> buffer \<Rightarrow> nat \<Rightarrow> nat \<Rightarrow> impl_rank list \<Rightarrow> impl_rank list \<times> nat"
where
  "staged_loop L i currentGradientIndex nextGradientIndex gpuCopyBuffer gpuToCpuIndex allReduceIndex w =
     (if i \<le> length L then
        (let nextGradientIndex' = (if i < length L then L ! i else nextGradientIndex);
             gpuCopyBuffer' =
               (if i < length L \<and> nextGradientIndex' \<noteq> NONE
                then Gradient nextGradientIndex' else gpuCopyBuffer);
             w1 = (if i < length L
                   then map (CopyGPUToCPU gpuCopyBuffer' (IntermediateCPUBuffer gpuToCpuIndex)) w
                   else w);
             w2 = AllReduce MPI_SUM (IntermediateCPUBuffer allReduceIndex)
                    (buffer_of_index currentGradientIndex) w1;
             w3 = map (CopyCPUToGPU (IntermediateCPUBuffer allReduceIndex)
                         (buffer_of_index currentGradientIndex)) w2
         in staged_loop L (Suc i) nextGradientIndex' nextGradientIndex' gpuCopyBuffer'
              (Suc gpuToCpuIndex) gpuToCpuIndex w3)
      else (w, allReduceIndex))"
  by pat_completeness auto
termination
  by (relation "measure (\<lambda>(L, i, c, n, b, g, a, w). Suc (length L) - i)") auto

declare staged_loop.simps [simp del]

definition staged_pipeline :: "nat list \<Rightarrow> impl_rank list \<Rightarrow> impl_rank list \<times> nat" where
  "staged_pipeline L w =
     (let currentGradientIndex = L ! 0;
          gpuCopyBuffer =
            (if currentGradientIndex \<noteq> NONE then Gradient currentGradientIndex
             else AggregationBuffer);
          w0 = map (CopyGPUToCPU gpuCopyBuffer (IntermediateCPUBuffer 0)) w
      in staged_loop L 1 currentGradientIndex 0 gpuCopyBuffer 1 0 w0)"

text \<open>
  The loop of the second branch: a non-blocking all-reduce in place without GPU-direct
  RDMA, a blocking one with it on a GPU, and nothing with it on the CPU.
\<close>

fun inplace_loop :: "env \<Rightarrow> int \<Rightarrow> nat list \<Rightarrow> impl_rank list \<times> nat \<Rightarrow> impl_rank list \<times> nat" where
  "inplace_loop e deviceId [] (w, allReduceIndex) = (w, allReduceIndex)"
| "inplace_loop e deviceId (i # idx) (w, allReduceIndex) =
     (if \<not> UseGpuGdr e
      then inplace_loop e deviceId idx
             (AllReduce MPI_SUM (buffer_of_index i) (buffer_of_index i) w, Suc allReduceIndex)
      else if deviceId \<noteq> CPUDEVICE
      then inplace_loop e deviceId idx
             (AllReduce MPI_SUM (buffer_of_index i) (buffer_of_index i) w, allReduceIndex)
      else inplace_loop e deviceId idx (w, allReduceIndex))"

definition reduce_gradients :: "env \<Rightarrow> impl_rank list \<Rightarrow> impl_rank list \<times> nat" where
  "reduce_gradients e w =
     (let L = m_gradientIndexToAggregate (st (hd w));
          deviceId = DeviceId (hd (grads (hd w)))
      in if length L > 0 then
           (if \<not> UseGpuGdr e \<and> deviceId \<noteq> CPUDEVICE \<and> \<not> nccl_IsSupported e
            then staged_pipeline L w
            else if \<not> nccl_IsSupported e then inplace_loop e deviceId L (w, 0)
            else if nccl_IsSupported e then (nccl_AllReduce (map buffer_of_index L) w, 0)
            else (w, 0))
         else (w, 0))"

subsection \<open>The header rendezvous\<close>

text \<open>
  A posted receive is active until \<^verbatim>\<open>Waitany\<close> returns it; it carries the message once
  the send that matches it (same source, same tag) exists. \<open>ord\<close> lists the receives in
  the order in which their messages arrive; receives it does not list arrive last, in
  index order. \<^verbatim>\<open>Waitany\<close> returns the first active receive that has its message,
  \<^verbatim>\<open>MPI_UNDEFINED\<close> when no receive is active, and does not return when the active
  receives have no message.
\<close>

datatype request = Inactive | Active "DistGradHeader option"

datatype wait_result = Completed nat | MPI_UNDEFINED | Blocked

definition completable :: "request list \<Rightarrow> nat \<Rightarrow> bool" where
  "completable reqs j =
     (j < length reqs \<and> (case reqs ! j of Active (Some m) \<Rightarrow> True | _ \<Rightarrow> False))"

definition Waitany :: "request list \<Rightarrow> nat list \<Rightarrow> wait_result" where
  "Waitany reqs ord =
     (case filter (completable reqs) (ord @ [0 ..< length reqs]) of
        j # _ \<Rightarrow> Completed j
      | [] \<Rightarrow> (if \<exists>r \<in> set reqs. r \<noteq> Inactive then Blocked else MPI_UNDEFINED))"

text \<open>
  The receives the main rank posts: receive \<open>j\<close> is for the rank
  \<^verbatim>\<open>(j >= MyRank()) ? (j + 1) : j\<close>. The tags are those of the 32-bit \<^verbatim>\<open>int\<close> argument.
\<close>

definition post_receives :: "nat \<Rightarrow> 32 word list \<Rightarrow> DistGradHeader list \<Rightarrow> request list" where
  "post_receives MyRank tags hdrs =
     map (\<lambda>j. let source = (if j \<ge> MyRank then j + 1 else j)
              in Active (if tags ! source = tags ! MyRank then Some (hdrs ! source) else None))
       [0 ..< length hdrs - 1]"

text \<open>
  The loop of the main rank. The message is in the receive header when \<^verbatim>\<open>Waitany\<close>
  returns its index; \<^verbatim>\<open>Aggregate\<close> adds it to the header and resets it.
\<close>

function wait_headers ::
  "nat \<Rightarrow> nat \<Rightarrow> nat list \<Rightarrow> request list \<Rightarrow> DistGradHeader list \<Rightarrow> DistGradHeader
     \<Rightarrow> error + DistGradHeader list \<times> DistGradHeader"
where
  "wait_headers NumProc numNodesHeadersReceivedFrom ord reqs recvHeaders headerCPU =
     (if numNodesHeadersReceivedFrom < NumProc - 1 then
        (case Waitany reqs ord of
           Blocked \<Rightarrow> Inl Deadlock
         | MPI_UNDEFINED \<Rightarrow> Inr (recvHeaders, headerCPU)
         | Completed idx \<Rightarrow>
             (case reqs ! idx of
                Active (Some msg) \<Rightarrow>
                  wait_headers NumProc (Suc numNodesHeadersReceivedFrom) ord
                    (reqs[idx := Inactive]) (recvHeaders[idx := Clear msg])
                    (Aggregate headerCPU msg)
              | _ \<Rightarrow> Inl Deadlock))
      else Inr (recvHeaders, headerCPU))"
  by pat_completeness auto
termination
  by (relation "measure (\<lambda>(np, n, ord, reqs, recv, h). np - 1 - n)") auto

declare wait_headers.simps [simp del]

text \<open>
  The rendezvous on all ranks: the main rank folds the headers it receives into its own,
  keeps the receive headers, and broadcasts the result. The arguments are the tag of
  every rank, the requests the main rank posted, its receive headers and the header of
  every rank.
\<close>

definition Bcast :: "nat \<Rightarrow> DistGradHeader list \<Rightarrow> DistGradHeader list" where
  "Bcast rootRank hdrs = map (\<lambda>h. hdrs ! rootRank) hdrs"

definition header_rendezvous ::
  "env \<Rightarrow> nat list \<Rightarrow> request list \<Rightarrow> DistGradHeader list \<Rightarrow> DistGradHeader list
     \<Rightarrow> error + DistGradHeader list \<times> DistGradHeader list"
where
  "header_rendezvous e ord reqs recvHeaders hdrs =
     (case wait_headers (length hdrs) 0 ord reqs recvHeaders (hdrs ! MainNodeRank e) of
        Inl err \<Rightarrow> Inl err
      | Inr r \<Rightarrow> Inr (fst r, Bcast (MainNodeRank e) (hdrs[MainNodeRank e := snd r])))"

subsection \<open>AggregateGradientsImpl\<close>

text \<open>
  The accesses of the pipeline on one rank are defined when the gradient list is not
  empty, the index lists point into it, the packed buffer exists where it is used and
  holds the packed gradients, and (on the staged transport) every entry of the standalone
  list has a pinned host buffer that holds its matrix.
\<close>

definition accesses_defined :: "env \<Rightarrow> impl_rank \<Rightarrow> bool" where
  "accesses_defined e p =
     (let a = st p; L = m_gradientIndexToAggregate a; P = m_packedGradientsIndex a
      in grads p \<noteq> [] \<and>
         (\<forall>i \<in> set P. i < length (grads p)) \<and>
         (\<forall>i \<in> set L. i = NONE \<or> i < length (grads p)) \<and>
         (P = [] \<and> NONE \<notin> set L \<or>
          m_aggregationBuffer a \<noteq> None \<and>
          sum_list (map (\<lambda>i. GetNumElements (grads p ! i)) P)
            \<le> num_elements p AggregationBuffer) \<and>
         (ShouldCopyDataToCPU e (DeviceId (hd (grads p))) \<longrightarrow>
            length L \<le> length (m_intermediateCPUBuffers a) \<and>
            (\<forall>k \<in> set [0 ..< length L].
               num_elements p (buffer_of_index (L ! k)) \<le> length (m_intermediateCPUBuffers a ! k))))"

text \<open>Two ranks enter the same collectives with the same counts.\<close>

definition same_collectives :: "impl_rank \<Rightarrow> impl_rank \<Rightarrow> bool" where
  "same_collectives p q =
     (m_gradientIndexToAggregate (st p) = m_gradientIndexToAggregate (st q) \<and>
      m_packedGradientsIndex (st p) = m_packedGradientsIndex (st q) \<and>
      map GetNumElements (grads p) = map GetNumElements (grads q) \<and>
      num_elements p AggregationBuffer = num_elements q AggregationBuffer \<and>
      (DeviceId (hd (grads p)) = CPUDEVICE) = (DeviceId (hd (grads q)) = CPUDEVICE) \<and>
      numEvalNode (hdr p) = numEvalNode (hdr q))"

definition gradients_tag :: "impl_rank \<Rightarrow> 32 word" where
  "gradients_tag p = of_nat (length (grads p))"

definition AggregateGradientsImpl :: "env \<Rightarrow> nat list \<Rightarrow> impl_rank list \<Rightarrow> error + impl_rank list" where
  "AggregateGradientsImpl e ord w =
     (let main = MainNodeRank e in
      if \<not> main < length w then Inl MpiFail
      else if (\<exists>p \<in> set w. \<not> accesses_defined e p) \<or>
              length (m_recvHeaders (st (w ! main))) < length w - 1
      then Inl UndefinedBehaviour
      else if \<exists>p \<in> set w. \<not> same_collectives (hd w) p then Inl CollectiveMismatch
      else
        (let w1 = map zero_if_no_samples w;
             w2 = map pack_rank w1;
             reqs = post_receives main (map gradients_tag w2) (map hdr w2);
             w3 = fst (reduce_gradients e w2)
         in case header_rendezvous e ord reqs (m_recvHeaders (st (w3 ! main))) (map hdr w3) of
              Inl err \<Rightarrow> Inl err
            | Inr r \<Rightarrow>
                (let w4 = w3[main := (w3 ! main)\<lparr>st := (st (w3 ! main))\<lparr>m_recvHeaders := fst r\<rparr>\<rparr>];
                     w5 = map2 (\<lambda>p h. p\<lparr>hdr := h\<rparr>) w4 (snd r)
                 in Inr (map unpack_rank w5))))"

section \<open>AggregateGradients\<close>

text \<open>
  A rank at a call of \<^verbatim>\<open>AggregateGradients\<close>: its aggregator, the \<^verbatim>\<open>gradients\<close>
  argument (the address of each matrix and the matrix) and the header.
\<close>

record rank =
  aggr :: aggregator
  gradients :: "(nat \<times> Matrix) list"
  headerCPU :: DistGradHeader

fun sequence_err :: "(error + 'a) list \<Rightarrow> error + 'a list" where
  "sequence_err [] = Inr []"
| "sequence_err (x # xs) =
     (case x of
        Inl err \<Rightarrow> Inl err
      | Inr y \<Rightarrow> (case sequence_err xs of Inl err \<Rightarrow> Inl err | Inr ys \<Rightarrow> Inr (y # ys)))"

text \<open>
  The start of the call on rank \<open>r\<close>: the NCCL communicator, \<^verbatim>\<open>ResetState\<close>, the
  iteration count. \<^verbatim>\<open>showSyncPerfStats\<close> only switches timing output on and is left out.
\<close>

definition enter_rank :: "env \<Rightarrow> nat \<Rightarrow> bool \<Rightarrow> nat \<Rightarrow> rank \<Rightarrow> error + rank" where
  "enter_rank e NumProc resetState r k =
     (case ResetState e NumProc (r = MainNodeRank e) (gradients k) (numEvalNode (headerCPU k))
             resetState ((aggr k)\<lparr>m_nccl := True\<rparr>) of
        Inl err \<Rightarrow> Inl err
      | Inr a \<Rightarrow> Inr (k\<lparr>aggr := a\<lparr>m_iterationCount := (m_iterationCount a + 1) mod size_t_range\<rparr>\<rparr>))"

text \<open>The views of a rank that the pipeline works on, and the way back.\<close>

definition caller_view :: "rank \<Rightarrow> impl_rank" where
  "caller_view k = \<lparr>st = aggr k, grads = map snd (gradients k), hdr = headerCPU k\<rparr>"

definition store_caller :: "impl_rank \<Rightarrow> rank \<Rightarrow> rank" where
  "store_caller p k =
     k\<lparr>aggr := st p, gradients := zip (map fst (gradients k)) (grads p), headerCPU := hdr p\<rparr>"

fun lookup_all :: "(nat \<times> Matrix) list \<Rightarrow> nat list \<Rightarrow> error + Matrix list" where
  "lookup_all b [] = Inr []"
| "lookup_all b (x # xs) =
     (case map_of b x of
        None \<Rightarrow> Inl UndefinedBehaviour
      | Some m \<Rightarrow> (case lookup_all b xs of Inl err \<Rightarrow> Inl err | Inr ms \<Rightarrow> Inr (m # ms)))"

definition shadow_view :: "rank \<Rightarrow> error + impl_rank" where
  "shadow_view k =
     (case m_pendingAsyncAggregation (aggr k) of
        None \<Rightarrow> Inl UndefinedBehaviour
      | Some addrs \<Rightarrow>
          (case lookup_all (m_bufferedGradients (aggr k)) addrs of
             Inl err \<Rightarrow> Inl err
           | Inr ms \<Rightarrow>
               (case m_bufferedGradHeader (aggr k) of
                  None \<Rightarrow> Inl UndefinedBehaviour
                | Some h \<Rightarrow> Inr \<lparr>st = aggr k, grads = ms, hdr = h\<rparr>)))"

fun update_all :: "(nat \<times> Matrix) list \<Rightarrow> (nat \<times> Matrix) list \<Rightarrow> (nat \<times> Matrix) list" where
  "update_all [] b = b"
| "update_all (x # xs) b = update_all xs (AList.update (fst x) (snd x) b)"

definition store_shadow :: "impl_rank \<Rightarrow> rank \<Rightarrow> rank" where
  "store_shadow p k =
     k\<lparr>aggr := (st p)
         \<lparr>m_bufferedGradients :=
            update_all
              (zip (case m_pendingAsyncAggregation (aggr k) of None \<Rightarrow> [] | Some addrs \<Rightarrow> addrs)
                 (grads p))
              (m_bufferedGradients (st p)),
          m_bufferedGradHeader := Some (hdr p),
          m_pendingAsyncAggregation := None\<rparr>\<rparr>"

text \<open>
  \<^verbatim>\<open>m_pendingAsyncAggregation.get()\<close>. The task that was started by the previous call
  runs the pipeline on the shadows; its effect is taken at the point where the caller
  waits for it, which is the first point where the caller can see it. The ranks wait
  together.
\<close>

definition join_pending :: "env \<Rightarrow> nat list \<Rightarrow> rank list \<Rightarrow> error + rank list" where
  "join_pending e ord w =
     (if \<forall>k \<in> set w. m_pendingAsyncAggregation (aggr k) = None then Inr w
      else if \<exists>k \<in> set w. m_pendingAsyncAggregation (aggr k) = None then Inl CollectiveMismatch
      else
        (case sequence_err (map shadow_view w) of
           Inl err \<Rightarrow> Inl err
         | Inr ps \<Rightarrow>
             (case AggregateGradientsImpl e ord ps of
                Inl err \<Rightarrow> Inl err
              | Inr ps' \<Rightarrow> Inr (map2 store_shadow ps' w))))"

text \<open>The loop that swaps every gradient with its shadow.\<close>

fun swap_buffered ::
  "(nat \<times> Matrix) list \<Rightarrow> (nat \<times> Matrix) list
     \<Rightarrow> error + (nat \<times> Matrix) list \<times> (nat \<times> Matrix) list"
where
  "swap_buffered [] b = Inr ([], b)"
| "swap_buffered (g # gs) b =
     (case map_of b (fst g) of
        None \<Rightarrow> Inl LogicError
      | Some m \<Rightarrow>
          (if NumCols m \<noteq> NumCols (snd g) \<or> NumRows m \<noteq> NumRows (snd g) \<or>
              DeviceId m \<noteq> DeviceId (snd g)
           then Inl LogicError
           else
             (case swap_buffered gs (AList.update (fst g) (snd g) b) of
                Inl err \<Rightarrow> Inl err
              | Inr r \<Rightarrow> Inr ((fst g, m) # fst r, snd r))))"

definition swap_rank :: "rank \<Rightarrow> error + rank" where
  "swap_rank k =
     (case swap_buffered (gradients k) (m_bufferedGradients (aggr k)) of
        Inl err \<Rightarrow> Inl err
      | Inr r \<Rightarrow>
          (case m_bufferedGradHeader (aggr k) of
             None \<Rightarrow> Inl UndefinedBehaviour
           | Some h \<Rightarrow>
               Inr (k\<lparr>gradients := fst r, headerCPU := h,
                      aggr := (aggr k)\<lparr>m_bufferedGradients := snd r,
                                       m_bufferedGradHeader := Some (headerCPU k)\<rparr>\<rparr>)))"

text \<open>
  The end of the asynchronous path on one rank: the task is started when \<^verbatim>\<open>resetState\<close>
  is set or the header that was swapped in has samples. The result is the return value
  and the rank.
\<close>

definition dispatch_rank :: "bool \<Rightarrow> rank \<Rightarrow> error + bool \<times> rank" where
  "dispatch_rank resetState k =
     (if resetState \<or> numSamples (headerCPU k) \<noteq> 0 then
        (if gradients k = [] then Inl UndefinedBehaviour
         else Inr (True, k\<lparr>aggr := (aggr k)\<lparr>m_pendingAsyncAggregation :=
                                              Some (map fst (gradients k))\<rparr>\<rparr>))
      else Inr (False, k))"

text \<open>
  \<^verbatim>\<open>AggregateGradients\<close> on all ranks. The result is the return value and the state of
  every rank.
\<close>

definition AggregateGradients_async ::
  "env \<Rightarrow> nat list \<Rightarrow> bool \<Rightarrow> rank list \<Rightarrow> error + bool list \<times> rank list"
where
  "AggregateGradients_async e ord resetState w =
     (case join_pending e ord w of
        Inl err \<Rightarrow> Inl err
      | Inr w1 \<Rightarrow>
          (case sequence_err (map swap_rank w1) of
             Inl err \<Rightarrow> Inl err
           | Inr w2 \<Rightarrow>
               (case sequence_err (map (dispatch_rank resetState) w2) of
                  Inl err \<Rightarrow> Inl err
                | Inr rs \<Rightarrow> Inr (map fst rs, map snd rs))))"

definition AggregateGradients_sync ::
  "env \<Rightarrow> nat list \<Rightarrow> rank list \<Rightarrow> error + bool list \<times> rank list"
where
  "AggregateGradients_sync e ord w =
     (case AggregateGradientsImpl e ord (map caller_view w) of
        Inl err \<Rightarrow> Inl err
      | Inr ps \<Rightarrow> Inr (map (\<lambda>p. numSamples (hdr p) \<noteq> 0) ps, map2 store_caller ps w))"

definition AggregateGradients ::
  "env \<Rightarrow> nat list \<Rightarrow> bool \<Rightarrow> rank list \<Rightarrow> error + bool list \<times> rank list"
where
  "AggregateGradients e ord resetState w =
     (if length w = 1 then Inr (map (\<lambda>k. numSamples (headerCPU k) \<noteq> 0) w, w)
      else
        (case sequence_err (map2 (enter_rank e (length w) resetState) [0 ..< length w] w) of
           Inl err \<Rightarrow> Inl err
         | Inr w1 \<Rightarrow>
             (if \<forall>k \<in> set w1. m_useAsyncAggregation (aggr k)
              then AggregateGradients_async e ord resetState w1
              else if \<forall>k \<in> set w1. \<not> m_useAsyncAggregation (aggr k)
              then AggregateGradients_sync e ord w1
              else Inl CollectiveMismatch)))"

section \<open>AsyncAggregateGradHeader\<close>

text \<open>
  The header-only rendezvous of the second source variant. Its messages are tagged with
  the sample count of the sending rank, converted to \<^verbatim>\<open>int\<close>.
\<close>

definition samples_tag :: "rank \<Rightarrow> 32 word" where
  "samples_tag k = ucast (numSamples (headerCPU k))"

definition AsyncAggregateGradHeaderImpl :: "env \<Rightarrow> nat list \<Rightarrow> rank list \<Rightarrow> error + rank list" where
  "AsyncAggregateGradHeaderImpl e ord w =
     (let main = MainNodeRank e in
      if \<not> main < length w then Inl MpiFail
      else if length (m_recvHeaders (aggr (w ! main))) < length w - 1 then Inl UndefinedBehaviour
      else
        (let reqs = post_receives main (map samples_tag w) (map headerCPU w)
         in case header_rendezvous e ord reqs (m_recvHeaders (aggr (w ! main))) (map headerCPU w) of
              Inl err \<Rightarrow> Inl err
            | Inr r \<Rightarrow>
                (let w1 = w[main := (w ! main)\<lparr>aggr := (aggr (w ! main))\<lparr>m_recvHeaders := fst r\<rparr>\<rparr>]
                 in Inr (map2 (\<lambda>k h. k\<lparr>headerCPU := h\<rparr>) w1 (snd r)))))"

text \<open>The start of the call on rank \<open>r\<close>: the communicator and the receive headers.\<close>

definition enter_header_rank :: "env \<Rightarrow> nat \<Rightarrow> nat \<Rightarrow> rank \<Rightarrow> rank" where
  "enter_header_rank e NumProc r k =
     k\<lparr>aggr := (aggr k)
         \<lparr>m_nccl := True,
          m_recvHeaders :=
            (if r = MainNodeRank e
             then m_recvHeaders (aggr k) @ replicate (NumProc - 1) (Create (numEvalNode (headerCPU k)))
             else m_recvHeaders (aggr k))\<rparr>\<rparr>"

definition AsyncAggregateGradHeader ::
  "env \<Rightarrow> nat list \<Rightarrow> rank list \<Rightarrow> error + bool list \<times> rank list"
where
  "AsyncAggregateGradHeader e ord w =
     (if length w = 1 then Inr (map (\<lambda>k. numSamples (headerCPU k) \<noteq> 0) w, w)
      else
        (case AsyncAggregateGradHeaderImpl e ord
                (map2 (enter_header_rank e (length w)) [0 ..< length w] w) of
           Inl err \<Rightarrow> Inl err
         | Inr w1 \<Rightarrow> Inr (map (\<lambda>k. numSamples (headerCPU k) \<noteq> 0) w1, w1)))"

section \<open>DistributedAllReduce\<close>



section \<open>Closed forms used to state the results\<close>

text \<open>
  The functions of this section are not in the sources. They describe, without loops and
  state, what the loops above compute; each is related to the loop it describes by a
  lemma below.
\<close>

definition fits :: "env \<Rightarrow> bool \<Rightarrow> nat \<Rightarrow> Matrix \<Rightarrow> bool" where
  "fits e async thr g =
     (\<not> async \<and> (sizeof_ElemType e * GetNumElements g) mod size_t_range \<le> thr)"

definition fitting :: "env \<Rightarrow> bool \<Rightarrow> nat \<Rightarrow> (nat \<times> Matrix) list \<Rightarrow> nat list" where
  "fitting e async thr gs = filter (\<lambda>j. fits e async thr (snd (gs ! j))) [0 ..< length gs]"

definition not_fitting :: "env \<Rightarrow> bool \<Rightarrow> nat \<Rightarrow> (nat \<times> Matrix) list \<Rightarrow> nat list" where
  "not_fitting e async thr gs = filter (\<lambda>j. \<not> fits e async thr (snd (gs ! j))) [0 ..< length gs]"

fun packed_size :: "env \<Rightarrow> bool \<Rightarrow> nat \<Rightarrow> (nat \<times> Matrix) list \<Rightarrow> nat \<Rightarrow> nat" where
  "packed_size e async thr [] sz = sz"
| "packed_size e async thr (g # gs) sz =
     packed_size e async thr gs
       (if fits e async thr (snd g) then (sz + GetNumElements (snd g)) mod size_t_range else sz)"

fun add_shadows :: "int \<Rightarrow> (nat \<times> Matrix) list \<Rightarrow> (nat \<times> Matrix) list \<Rightarrow> (nat \<times> Matrix) list" where
  "add_shadows d [] b = b"
| "add_shadows d (g # gs) b =
     add_shadows d gs (AList.update (fst g) (new_Matrix (NumRows (snd g)) (NumCols (snd g)) d) b)"

text \<open>The aggregator after the classification loop has run over \<open>gs\<close> from position \<open>i\<close>.\<close>

definition classified :: "env \<Rightarrow> int \<Rightarrow> nat \<Rightarrow> (nat \<times> Matrix) list \<Rightarrow> aggregator \<Rightarrow> aggregator" where
  "classified e d i gs a =
     a\<lparr>m_packedGradientsIndex :=
         m_packedGradientsIndex a @
         map (\<lambda>j. i + j) (fitting e (m_useAsyncAggregation a) (m_packThresholdSizeInBytes a) gs),
       m_gradientIndexToAggregate :=
         m_gradientIndexToAggregate a @
         map (\<lambda>j. i + j) (not_fitting e (m_useAsyncAggregation a) (m_packThresholdSizeInBytes a) gs),
       m_bufferedGradients :=
         (if m_useAsyncAggregation a then add_shadows d gs (m_bufferedGradients a)
          else m_bufferedGradients a)\<rparr>"

text \<open>
  \<^verbatim>\<open>packedGradientsSizeInElements\<close> after the loop, whether the packed buffer exists after
  \<^verbatim>\<open>ResetState\<close>, and the two index lists, the pinned host buffers and the whole aggregator
  that the first call of \<^verbatim>\<open>ResetState\<close> leaves.
\<close>

definition packed_total :: "env \<Rightarrow> aggregator \<Rightarrow> (nat \<times> Matrix) list \<Rightarrow> nat" where
  "packed_total e a gs =
     packed_size e (m_useAsyncAggregation a) (m_packThresholdSizeInBytes a) gs 0"

definition packed_allocated :: "env \<Rightarrow> aggregator \<Rightarrow> (nat \<times> Matrix) list \<Rightarrow> bool" where
  "packed_allocated e a gs = (packed_total e a gs > 0 \<and> nothrow_new_ok a)"

definition packed_list :: "env \<Rightarrow> aggregator \<Rightarrow> (nat \<times> Matrix) list \<Rightarrow> nat list" where
  "packed_list e a gs =
     (if packed_allocated e a gs
      then fitting e (m_useAsyncAggregation a) (m_packThresholdSizeInBytes a) gs else [])"

definition standalone_list :: "env \<Rightarrow> aggregator \<Rightarrow> (nat \<times> Matrix) list \<Rightarrow> nat list" where
  "standalone_list e a gs =
     (if packed_allocated e a gs
      then NONE # not_fitting e (m_useAsyncAggregation a) (m_packThresholdSizeInBytes a) gs
      else [0 ..< length gs])"

definition staging_buffers :: "env \<Rightarrow> aggregator \<Rightarrow> (nat \<times> Matrix) list \<Rightarrow> real list list" where
  "staging_buffers e a gs =
     map (\<lambda>i. AllocateIntermediateBuffer
                 (if i = NONE then packed_total e a gs else GetNumElements (snd (gs ! i))))
       (standalone_list e a gs)"

definition first_state ::
  "env \<Rightarrow> nat \<Rightarrow> bool \<Rightarrow> (nat \<times> Matrix) list \<Rightarrow> nat \<Rightarrow> aggregator \<Rightarrow> aggregator"
where
  "first_state e NumProc IsMainNode gs numEvalNodes a =
     a\<lparr>m_initialized := True,
       m_allocator := (m_allocator a \<or> ShouldCopyDataToCPU e (DeviceId (snd (hd gs)))),
       m_packedGradientsIndex := packed_list e a gs,
       m_gradientIndexToAggregate := standalone_list e a gs,
       m_aggregationBuffer :=
         (if packed_allocated e a gs
          then Some (new_Matrix 1 (packed_total e a gs) (DeviceId (snd (hd gs)))) else None),
       m_intermediateCPUBuffers :=
         (if ShouldCopyDataToCPU e (DeviceId (snd (hd gs)))
          then staging_buffers e a gs else m_intermediateCPUBuffers a),
       m_recvHeaders :=
         (if IsMainNode then m_recvHeaders a @ replicate (NumProc - 1) (Create numEvalNodes)
          else m_recvHeaders a),
       m_bufferedGradients :=
         (if m_useAsyncAggregation a
          then add_shadows (DeviceId (snd (hd gs))) gs (m_bufferedGradients a)
          else m_bufferedGradients a),
       m_bufferedGradHeader :=
         (if m_useAsyncAggregation a then Some (Clear (Create numEvalNodes))
          else m_bufferedGradHeader a)\<rparr>"

text \<open>An aggregator on which \<^verbatim>\<open>ResetState\<close> has not run: the index lists are empty.\<close>

definition fresh :: "aggregator \<Rightarrow> bool" where
  "fresh a =
     (\<not> m_initialized a \<and> m_packedGradientsIndex a = [] \<and> m_gradientIndexToAggregate a = [])"

text \<open>
  A gradient list that \<^verbatim>\<open>ResetState\<close> accepts: not empty, dense, and shorter than the
  sentinel, as every \<^verbatim>\<open>std::vector\<close> is.
\<close>

definition dense_gradients :: "(nat \<times> Matrix) list \<Rightarrow> bool" where
  "dense_gradients gs =
     (gs \<noteq> [] \<and> length gs \<le> NONE \<and> list_all (\<lambda>g. GetMatrixType (snd g) = DENSE) gs)"

text \<open>Running one step after another.\<close>

definition then_err :: "error + 'a \<Rightarrow> ('a \<Rightarrow> error + 'b) \<Rightarrow> error + 'b" where
  "then_err x f = (case x of Inl err \<Rightarrow> Inl err | Inr y \<Rightarrow> f y)"

section \<open>Concrete inputs\<close>

definition example_env :: "bool \<Rightarrow> bool \<Rightarrow> env" where
  "example_env gdr nccl =
     \<lparr>MainNodeRank = 0, UseGpuGdr = gdr, nccl_IsSupported = nccl, sizeof_ElemType = 4\<rparr>"

definition example_matrix :: "nat \<Rightarrow> nat \<Rightarrow> int \<Rightarrow> real list \<Rightarrow> Matrix" where
  "example_matrix r c d xs =
     \<lparr>NumRows = r, NumCols = c, DeviceId = d, GetMatrixType = DENSE, Data = xs\<rparr>"

definition example_header :: "64 word \<Rightarrow> real \<Rightarrow> DistGradHeader" where
  "example_header n c =
     \<lparr>numSamples = n, numSamplesWithLabel = n, criterion = c, numEvalNode = 1,
      evalErrors = [(c, n)]\<rparr>"

definition example_rank :: "bool \<Rightarrow> 64 word \<Rightarrow> real list \<Rightarrow> rank" where
  "example_rank async n xs =
     \<lparr>aggr = SimpleDistGradAggregator async 0 32768 True,
      gradients = [(100, example_matrix 2 2 0 xs)],
      headerCPU = example_header n 1\<rparr>"

definition example_impl_rank :: "int \<Rightarrow> real list \<Rightarrow> impl_rank" where
  "example_impl_rank d xs =
     \<lparr>st = SimpleDistGradAggregator False 0 32768 True,
      grads = [example_matrix 1 (length xs) d xs],
      hdr = example_header 1 1\<rparr>"

text \<open>A rank with one 2 x 2 gradient on the CPU, a sample count and a criterion.\<close>

definition example_cpu_rank :: "64 word \<Rightarrow> real \<Rightarrow> real list \<Rightarrow> rank" where
  "example_cpu_rank n c xs =
     \<lparr>aggr = SimpleDistGradAggregator False 0 32768 True,
      gradients = [(100, example_matrix 2 2 CPUDEVICE xs)],
      headerCPU = example_header n c\<rparr>"

text \<open>The messages of the receives that are still active.\<close>

definition active_msgs :: "request list \<Rightarrow> DistGradHeader list" where
  "active_msgs reqs =
     concat (map (\<lambda>q. case q of Active (Some m) \<Rightarrow> [m] | _ \<Rightarrow> []) reqs)"

text \<open>Every active receive has its message.\<close>

definition all_arrive :: "request list \<Rightarrow> bool" where
  "all_arrive reqs = list_all (\<lambda>q. q \<noteq> Active None) reqs"


text \<open>
  A rank on which the pipeline can run. The gradient list is shorter than the sentinel,
  as every \<^verbatim>\<open>std::vector\<close> is, and the matrices hold as many elements as their
  shape says; an index is in one of the two lists only, once, and every position is in
  one of them; the sentinel is not a position, it is in the standalone list where
  gradients are packed, and only at its head; the accesses of the pipeline are defined.
\<close>

definition well_formed_rank :: "env \<Rightarrow> impl_rank \<Rightarrow> bool" where
  "well_formed_rank e p =
     (let P = m_packedGradientsIndex (st p); L = m_gradientIndexToAggregate (st p)
      in length (grads p) \<le> NONE \<and>
         list_all (\<lambda>g. length (Data g) = GetNumElements g) (grads p) \<and>
         (case m_aggregationBuffer (st p) of
            None \<Rightarrow> True
          | Some m \<Rightarrow> length (Data m) = GetNumElements m) \<and>
         distinct (P @ L) \<and>
         NONE \<notin> set P \<and>
         list_all (\<lambda>i. i \<in> set P \<or> i \<in> set L) [0 ..< length (grads p)] \<and>
         (P = [] \<or> NONE \<in> set L) \<and>
         NONE \<notin> set (tl L) \<and>
         accesses_defined e p)"

text \<open>
  A job on which the pipeline can run: the main rank exists and has its receive headers,
  every rank is well formed, and the ranks agree on the collectives they enter.
\<close>

definition pipeline_ok :: "env \<Rightarrow> impl_rank list \<Rightarrow> bool" where
  "pipeline_ok e w =
     (MainNodeRank e < length w \<and>
      length w - 1 \<le> length (m_recvHeaders (st (w ! MainNodeRank e))) \<and>
      list_all (well_formed_rank e) w \<and>
      list_all (same_collectives (hd w)) w)"

text \<open>
  One of the four transports is taken: not the combination of GPU-direct RDMA, no NCCL
  and gradients on the CPU, for which the loop of the second branch does nothing.
\<close>

definition transport_selected :: "env \<Rightarrow> impl_rank list \<Rightarrow> bool" where
  "transport_selected e w =
     (nccl_IsSupported e \<or> \<not> UseGpuGdr e \<or> DeviceId (hd (grads (hd w))) \<noteq> CPUDEVICE)"

text \<open>The buffers on the device, and the buffers that exist on a rank.\<close>

fun is_device :: "buffer \<Rightarrow> bool" where
  "is_device AggregationBuffer = True"
| "is_device (Gradient i) = True"
| "is_device (IntermediateCPUBuffer k) = False"
| "is_device IntermediateDistributedCPUBuffer1 = False"

fun valid_buffer :: "impl_rank \<Rightarrow> buffer \<Rightarrow> bool" where
  "valid_buffer p AggregationBuffer = (m_aggregationBuffer (st p) \<noteq> None)"
| "valid_buffer p (Gradient i) = (i < length (grads p))"
| "valid_buffer p (IntermediateCPUBuffer k) = (k < length (m_intermediateCPUBuffers (st p)))"
| "valid_buffer p IntermediateDistributedCPUBuffer1 = True"

text \<open>What a transfer or a reduction leaves as it is on a rank.\<close>

definition frame :: "impl_rank \<Rightarrow> impl_rank \<Rightarrow> bool" where
  "frame p q =
     (hdr q = hdr p \<and>
      m_packedGradientsIndex (st q) = m_packedGradientsIndex (st p) \<and>
      m_gradientIndexToAggregate (st q) = m_gradientIndexToAggregate (st p) \<and>
      m_recvHeaders (st q) = m_recvHeaders (st p) \<and>
      length (m_intermediateCPUBuffers (st q)) = length (m_intermediateCPUBuffers (st p)) \<and>
      length (grads q) = length (grads p) \<and>
      (\<forall>b. is_device b \<longrightarrow>
           num_elements q b = num_elements p b \<and> valid_buffer q b = valid_buffer p b))"

text \<open>
  The ranks \<open>x\<close> are the ranks \<open>w\<close> after the device buffers in \<open>B\<close> have been reduced:
  every rank holds, in each buffer of \<open>B\<close>, the sum of that buffer over the ranks \<open>w\<close>,
  and its other device buffers as they were.
\<close>

definition reduced_on :: "buffer set \<Rightarrow> impl_rank list \<Rightarrow> impl_rank list \<Rightarrow> bool" where
  "reduced_on B w x =
     (length x = length w \<and>
      (\<forall>r < length w.
         frame (w ! r) (x ! r) \<and>
         (\<forall>b. is_device b \<longrightarrow>
              read_buffer (x ! r) b =
                (if b \<in> B then reduce_buffers MPI_SUM (map (\<lambda>p. read_buffer p b) w)
                 else read_buffer (w ! r) b))))"

text \<open>A buffer that exists on every rank, filled, with the same element count.\<close>

definition uniform_buffer :: "impl_rank list \<Rightarrow> buffer \<Rightarrow> bool" where
  "uniform_buffer w b =
     (\<forall>p \<in> set w. valid_buffer p b \<and> length (read_buffer p b) = num_elements p b \<and>
                   num_elements p b = num_elements (hd w) b)"

text \<open>
  The staged pipeline, at the start of iteration \<open>i\<close> of its loop, on the ranks \<open>x\<close> that
  started as \<open>w\<close>: the buffers of the entries before \<open>i - 1\<close> are reduced, the pinned host
  buffers are large enough, and host buffer \<open>i - 1\<close> holds the matrix of entry \<open>i - 1\<close>.
\<close>

definition staged_inv :: "nat list \<Rightarrow> impl_rank list \<Rightarrow> nat \<Rightarrow> impl_rank list \<Rightarrow> bool" where
  "staged_inv L w i x =
     (reduced_on ((\<lambda>k. buffer_of_index (L ! k)) ` {0 ..< i - 1}) w x \<and>
      (\<forall>r < length w.
         (\<forall>k < length L.
            num_elements (w ! r) (buffer_of_index (L ! k))
              \<le> length (read_buffer (x ! r) (IntermediateCPUBuffer k))) \<and>
         (i \<le> length L \<longrightarrow>
            take (num_elements (w ! r) (buffer_of_index (L ! (i - 1))))
              (read_buffer (x ! r) (IntermediateCPUBuffer (i - 1))) =
            read_buffer (w ! r) (buffer_of_index (L ! (i - 1))))))"

definition staged_pre :: "nat list \<Rightarrow> impl_rank list \<Rightarrow> bool" where
  "staged_pre L w =
     (w \<noteq> [] \<and> L \<noteq> [] \<and> distinct (map buffer_of_index L) \<and> NONE \<notin> set (tl L) \<and>
      (\<forall>k < length L. uniform_buffer w (buffer_of_index (L ! k))) \<and>
      (\<forall>p \<in> set w. length L \<le> length (m_intermediateCPUBuffers (st p))))"


text \<open>The start of a call of \<^verbatim>\<open>AggregateGradients\<close> on every rank.\<close>

definition entered :: "env \<Rightarrow> bool \<Rightarrow> rank list \<Rightarrow> error + rank list" where
  "entered e resetState w =
     sequence_err (map2 (enter_rank e (length w) resetState) [0 ..< length w] w)"

section \<open>Results on ResetState\<close>

lemma fits_pack_threshold_fits:
  "fits_pack_threshold e a g = fits e (m_useAsyncAggregation a) (m_packThresholdSizeInBytes a) g"
  by (simp add: fits_pack_threshold_def fits_def)

lemma fitting_Cons:
  "fitting e async thr (g # gs) =
     (if fits e async thr (snd g) then [0] else []) @ map Suc (fitting e async thr gs)"
  by (simp add: fitting_def upt_conv_Cons del: upt_Suc
      flip: map_Suc_upt add: filter_map comp_def)

lemma not_fitting_Cons:
  "not_fitting e async thr (g # gs) =
     (if fits e async thr (snd g) then [] else [0]) @ map Suc (not_fitting e async thr gs)"
  by (simp add: not_fitting_def upt_conv_Cons del: upt_Suc
      flip: map_Suc_upt add: filter_map comp_def)

lemma classified_Nil: "classified e d i [] a = a"
  by (simp add: classified_def fitting_def not_fitting_def)

lemma classified_Cons:
  "classified e d i (g # gs) a =
     classified e d (Suc i) gs
       (a\<lparr>m_packedGradientsIndex :=
            m_packedGradientsIndex a @ (if fits_pack_threshold e a (snd g) then [i] else []),
          m_gradientIndexToAggregate :=
            m_gradientIndexToAggregate a @ (if fits_pack_threshold e a (snd g) then [] else [i]),
          m_bufferedGradients :=
            (if m_useAsyncAggregation a
             then AList.update (fst g) (new_Matrix (NumRows (snd g)) (NumCols (snd g)) d)
                    (m_bufferedGradients a)
             else m_bufferedGradients a)\<rparr>)"
  by (simp add: classified_def fitting_Cons not_fitting_Cons comp_def fits_pack_threshold_fits)

text \<open>The classification loop ends in an error exactly when a gradient is sparse.\<close>

lemma classify_gradients_eq:
  "classify_gradients e d i gs (a, sz) =
     (if \<forall>g \<in> set gs. GetMatrixType (snd g) = DENSE
      then Inr (classified e d i gs a,
                packed_size e (m_useAsyncAggregation a) (m_packThresholdSizeInBytes a) gs sz)
      else Inl RuntimeError)"
proof (induction gs arbitrary: i a sz)
  case Nil
  show ?case by (simp add: classified_Nil)
next
  case (Cons g gs)
  show ?case
  proof (cases "GetMatrixType (snd g) = DENSE")
    case False
    then show ?thesis by (simp add: Let_def split: prod.split)
  next
    case dense: True
    show ?thesis
    proof (cases "fits_pack_threshold e a (snd g)")
      case True
      then have na: "\<not> m_useAsyncAggregation a" by (simp add: fits_pack_threshold_def)
      have "classify_gradients e d i (g # gs) (a, sz) =
              classify_gradients e d (Suc i) gs
                (a\<lparr>m_packedGradientsIndex := m_packedGradientsIndex a @ [i]\<rparr>,
                 (sz + GetNumElements (snd g)) mod size_t_range)"
        using True dense na by simp
      then show ?thesis
        using True dense na
        by (simp add: Cons.IH classified_Cons fits_pack_threshold_fits)
    next
      case False
      let ?a1 = "a\<lparr>m_gradientIndexToAggregate := m_gradientIndexToAggregate a @ [i]\<rparr>"
      let ?a2 = "if m_useAsyncAggregation a
                 then ?a1\<lparr>m_bufferedGradients :=
                        AList.update (fst g) (new_Matrix (NumRows (snd g)) (NumCols (snd g)) d)
                          (m_bufferedGradients a)\<rparr>
                 else ?a1"
      have "classify_gradients e d i (g # gs) (a, sz) =
              classify_gradients e d (Suc i) gs (?a2, sz)"
        using False dense by simp
      then show ?thesis
        using False dense
        by (simp add: Cons.IH classified_Cons fits_pack_threshold_fits)
    qed
  qed
qed

lemma set_not_fitting: "set (not_fitting e async thr gs) \<subseteq> {0 ..< length gs}"
  by (auto simp: not_fitting_def)

lemma set_fitting: "set (fitting e async thr gs) \<subseteq> {0 ..< length gs}"
  by (auto simp: fitting_def)

lemma allocate_staging_ok:
  assumes "\<forall>i \<in> set idx. i = NONE \<or> i < length gs"
  shows "allocate_staging gs sz idx =
           Inr (map (\<lambda>i. AllocateIntermediateBuffer
                         (if i = NONE then sz else GetNumElements (snd (gs ! i)))) idx)"
  using assms by (auto simp: allocate_staging_def)

lemma ResetState_first_allocated:
  assumes "0 < sz" and "nothrow_new_ok a1"
    and "\<forall>i \<in> set (m_gradientIndexToAggregate a1). i < length gs"
  shows "ResetState_first e NumProc IsMainNode gs numEvalNodes d a1 sz =
     Inr (a1\<lparr>m_gradientIndexToAggregate := NONE # m_gradientIndexToAggregate a1,
             m_aggregationBuffer := Some (new_Matrix 1 sz d),
             m_intermediateCPUBuffers :=
               (if ShouldCopyDataToCPU e d
                then map (\<lambda>i. AllocateIntermediateBuffer
                         (if i = NONE then sz else GetNumElements (snd (gs ! i))))
                       (NONE # m_gradientIndexToAggregate a1)
                else m_intermediateCPUBuffers a1),
             m_recvHeaders :=
               (if IsMainNode then m_recvHeaders a1 @ replicate (NumProc - 1) (Create numEvalNodes)
                else m_recvHeaders a1),
             m_bufferedGradHeader :=
               (if m_useAsyncAggregation a1 then Some (Clear (Create numEvalNodes))
                else m_bufferedGradHeader a1)\<rparr>)"
proof -
  have st: "allocate_staging gs sz (NONE # m_gradientIndexToAggregate a1) =
           Inr (map (\<lambda>i. AllocateIntermediateBuffer
                         (if i = NONE then sz else GetNumElements (snd (gs ! i))))
                  (NONE # m_gradientIndexToAggregate a1))"
    using assms(3) by (intro allocate_staging_ok) auto
  show ?thesis
    using assms(1,2)
    by (cases "ShouldCopyDataToCPU e d"; cases "m_useAsyncAggregation a1"; cases IsMainNode)
       (simp_all add: ResetState_first_def Let_def st)
qed

lemma ResetState_first_fallback:
  assumes "\<not> (0 < sz \<and> nothrow_new_ok a1)"
  shows "ResetState_first e NumProc IsMainNode gs numEvalNodes d a1 sz =
     Inr (a1\<lparr>m_gradientIndexToAggregate := [0 ..< length gs],
             m_packedGradientsIndex := [],
             m_aggregationBuffer := None,
             m_intermediateCPUBuffers :=
               (if ShouldCopyDataToCPU e d
                then map (\<lambda>i. AllocateIntermediateBuffer
                         (if i = NONE then 0 else GetNumElements (snd (gs ! i))))
                       [0 ..< length gs]
                else m_intermediateCPUBuffers a1),
             m_recvHeaders :=
               (if IsMainNode then m_recvHeaders a1 @ replicate (NumProc - 1) (Create numEvalNodes)
                else m_recvHeaders a1),
             m_bufferedGradHeader :=
               (if m_useAsyncAggregation a1 then Some (Clear (Create numEvalNodes))
                else m_bufferedGradHeader a1)\<rparr>)"
proof -
  have st: "allocate_staging gs 0 [0 ..< length gs] =
           Inr (map (\<lambda>i. AllocateIntermediateBuffer
                         (if i = NONE then 0 else GetNumElements (snd (gs ! i))))
                  [0 ..< length gs])"
    by (intro allocate_staging_ok) auto
  have c: "(0 < sz \<and> nothrow_new_ok a1) = False"
    using assms by simp
  show ?thesis
    by (cases "ShouldCopyDataToCPU e d"; cases "m_useAsyncAggregation a1"; cases IsMainNode)
       (simp_all add: ResetState_first_def Let_def st c)
qed

text \<open>The first call of \<^verbatim>\<open>ResetState\<close>.\<close>

lemma ResetState_fresh:
  assumes "fresh a" and "dense_gradients gs"
  shows "ResetState e NumProc IsMainNode gs numEvalNodes resetState a =
           Inr (first_state e NumProc IsMainNode gs numEvalNodes a)"
proof -
  from assms have ini: "\<not> m_initialized a" and emp: "m_packedGradientsIndex a = []"
      "m_gradientIndexToAggregate a = []" and ne: "gs \<noteq> []"
    and dense: "\<forall>g \<in> set gs. GetMatrixType (snd g) = DENSE" and len: "length gs \<le> NONE"
    by (simp_all add: fresh_def dense_gradients_def list_all_iff)
  let ?d = "DeviceId (snd (hd gs))"
  let ?a0 = "a\<lparr>m_initialized := True, m_allocator := (m_allocator a \<or> ShouldCopyDataToCPU e ?d)\<rparr>"
  define a1 where "a1 = classified e ?d 0 gs ?a0"
  have r: "ResetState e NumProc IsMainNode gs numEvalNodes resetState a =
             ResetState_first e NumProc IsMainNode gs numEvalNodes ?d a1 (packed_total e a gs)"
    unfolding a1_def
    using ini ne dense by (simp add: ResetState_def classify_gradients_eq Let_def packed_total_def)
  have a1: "a1 = ?a0\<lparr>m_packedGradientsIndex :=
                       fitting e (m_useAsyncAggregation a) (m_packThresholdSizeInBytes a) gs,
                     m_gradientIndexToAggregate :=
                       not_fitting e (m_useAsyncAggregation a) (m_packThresholdSizeInBytes a) gs,
                     m_bufferedGradients :=
                       (if m_useAsyncAggregation a then add_shadows ?d gs (m_bufferedGradients a)
                        else m_bufferedGradients a)\<rparr>"
    unfolding a1_def using emp by (simp add: classified_def)
  have sel: "m_gradientIndexToAggregate a1 =
               not_fitting e (m_useAsyncAggregation a) (m_packThresholdSizeInBytes a) gs"
    "nothrow_new_ok a1 = nothrow_new_ok a"
    by (simp_all add: a1)
  have nn: "(if i = NONE then x else y) = y" if "i < length gs" for i and x y :: nat
    using that len by simp
  show ?thesis
  proof (cases "packed_allocated e a gs")
    case True
    have rng: "\<forall>i \<in> set (m_gradientIndexToAggregate a1). i < length gs"
      unfolding sel
      using set_not_fitting [of e "m_useAsyncAggregation a" "m_packThresholdSizeInBytes a" gs]
      by auto
    have p: "0 < packed_total e a gs" "nothrow_new_ok a1"
      using True by (simp_all add: packed_allocated_def sel)
    show ?thesis
      unfolding r ResetState_first_allocated [OF p rng]
      using True
      by (simp add: a1 first_state_def packed_list_def standalone_list_def staging_buffers_def)
  next
    case False
    have p: "\<not> (0 < packed_total e a gs \<and> nothrow_new_ok a1)"
      using False by (simp add: packed_allocated_def sel)
    show ?thesis
      unfolding r ResetState_first_fallback [OF p]
      using False
      by (simp add: a1 first_state_def packed_list_def standalone_list_def staging_buffers_def
          nn cong: map_cong)
  qed
qed

lemma packed_size_no_fitting:
  "fitting e async thr gs = [] \<Longrightarrow> packed_size e async thr gs sz = sz"
  by (induction gs arbitrary: sz) (auto simp: fitting_Cons split: if_splits)

lemma packed_allocated_fitting:
  "packed_allocated e a gs \<Longrightarrow>
     fitting e (m_useAsyncAggregation a) (m_packThresholdSizeInBytes a) gs \<noteq> []"
  using packed_size_no_fitting [of e "m_useAsyncAggregation a" "m_packThresholdSizeInBytes a" gs 0]
  by (auto simp: packed_allocated_def packed_total_def)

lemma mem_fitting:
  "i \<in> set (fitting e async thr gs) \<longleftrightarrow> i < length gs \<and> fits e async thr (snd (gs ! i))"
  by (auto simp: fitting_def)

lemma mem_not_fitting:
  "i \<in> set (not_fitting e async thr gs) \<longleftrightarrow> i < length gs \<and> \<not> fits e async thr (snd (gs ! i))"
  by (auto simp: not_fitting_def)

lemma distinct_fitting: "distinct (fitting e async thr gs)" "distinct (not_fitting e async thr gs)"
  by (simp_all add: fitting_def not_fitting_def)

lemma first_state_lists:
  "m_packedGradientsIndex (first_state e NumProc IsMainNode gs numEvalNodes a) = packed_list e a gs"
  "m_gradientIndexToAggregate (first_state e NumProc IsMainNode gs numEvalNodes a) =
     standalone_list e a gs"
  "m_aggregationBuffer (first_state e NumProc IsMainNode gs numEvalNodes a) =
     (if packed_allocated e a gs
      then Some (new_Matrix 1 (packed_total e a gs) (DeviceId (snd (hd gs)))) else None)"
  by (simp_all add: first_state_def)

lemma mem_packed_list:
  "i \<in> set (packed_list e a gs) \<longleftrightarrow>
     i < length gs \<and> fits_pack_threshold e a (snd (gs ! i)) \<and> packed_allocated e a gs"
  by (auto simp: packed_list_def mem_fitting fits_pack_threshold_fits)

lemma mem_standalone_list:
  assumes "length gs \<le> NONE" and "i < length gs"
  shows "i \<in> set (standalone_list e a gs) \<longleftrightarrow>
           \<not> (fits_pack_threshold e a (snd (gs ! i)) \<and> packed_allocated e a gs)"
  using assms by (auto simp: standalone_list_def mem_not_fitting fits_pack_threshold_fits)

lemma standalone_list_sentinel:
  assumes "length gs \<le> NONE"
  shows "if packed_allocated e a gs
         then \<exists>rest. standalone_list e a gs = NONE # rest \<and> NONE \<notin> set rest
         else NONE \<notin> set (standalone_list e a gs)"
  using assms by (auto simp: standalone_list_def mem_not_fitting)

lemma lists_cover:
  assumes "length gs \<le> NONE"
  shows "set (packed_list e a gs) \<union> (set (standalone_list e a gs) - {NONE}) = {0 ..< length gs}"
  using assms
  by (auto simp: packed_list_def standalone_list_def mem_fitting mem_not_fitting)

lemma lists_distinct:
  assumes "length gs \<le> NONE"
  shows "distinct (packed_list e a gs)" "distinct (standalone_list e a gs)"
  using assms
  by (auto simp: packed_list_def standalone_list_def distinct_fitting mem_not_fitting)

named_theorems eval_defs

lemmas [eval_defs] =
  example_env_def example_matrix_def example_header_def SimpleDistGradAggregator_def
  ResetState_def ResetState_first_def ResetState_again_def fits_pack_threshold_def
  GetNumElements_def size_t_range_def NONE_def CPUDEVICE_def ShouldCopyDataToCPU_def
  allocate_staging_def AllocateIntermediateBuffer_def new_Matrix_def SetValue_def
  Create_def Clear_def then_err_def Let_def fresh_def dense_gradients_def

text \<open>
  Claim C9. When the allocation of the packed buffer fails during the first call of
  ResetState, no gradient is packed: the packed list is empty, the standalone list is
  the list of all positions 0, ..., N - 1 without the sentinel, and every entry of the
  standalone list is reduced as the matrix of its own gradient.
\<close>

theorem C9_allocation_failure_all_standalone:
  assumes "fresh a" and "dense_gradients gs" and "\<not> nothrow_new_ok a"
  shows "\<exists>a'. ResetState e NumProc IsMainNode gs numEvalNodes resetState a = Inr a' \<and>
           m_aggregationBuffer a' = None \<and>
           m_packedGradientsIndex a' = [] \<and>
           m_gradientIndexToAggregate a' = [0 ..< length gs] \<and>
           NONE \<notin> set (m_gradientIndexToAggregate a') \<and>
           map buffer_of_index (m_gradientIndexToAggregate a') = map Gradient [0 ..< length gs]"
proof -
  have na: "\<not> packed_allocated e a gs"
    using assms(3) by (simp add: packed_allocated_def)
  have len: "length gs \<le> NONE"
    using assms(2) by (simp add: dense_gradients_def)
  have "map buffer_of_index [0 ..< length gs] = map Gradient [0 ..< length gs]"
    using len by (simp add: buffer_of_index_def)
  then show ?thesis
    using na len
    by (simp add: ResetState_fresh [OF assms(1,2)] first_state_def packed_list_def
        standalone_list_def)
qed

theorem C9_witness:
  "\<exists>a'. ResetState (example_env False False) 2 True
           [(100, example_matrix 2 2 0 [1, 2, 3, 4]), (200, example_matrix 1 2 0 [5, 6])] 0 False
           (SimpleDistGradAggregator False 0 32768 False) = Inr a' \<and>
         m_aggregationBuffer a' = None \<and>
         m_packedGradientsIndex a' = [] \<and>
         m_gradientIndexToAggregate a' = [0, 1] \<and>
         NONE \<notin> set (m_gradientIndexToAggregate a') \<and>
         map buffer_of_index (m_gradientIndexToAggregate a') = [Gradient 0, Gradient 1]"
  using C9_allocation_failure_all_standalone
    [of "SimpleDistGradAggregator False 0 32768 False"
        "[(100, example_matrix 2 2 0 [1, 2, 3, 4]), (200, example_matrix 1 2 0 [5, 6])]"
        "example_env False False" 2 True 0 False]
  by (simp add: fresh_def dense_gradients_def SimpleDistGradAggregator_def example_matrix_def
      NONE_def upt_conv_Cons)

text \<open>
  Claim C4, as stated, fails: with the packing enabled and a gradient of 16 bytes under a
  threshold of 32768 bytes, position 0 is not packed when the allocation of the packed
  buffer fails.
\<close>

theorem C4_counterexample:
  "map_sum id m_packedGradientsIndex
     (ResetState (example_env False False) 2 True [(100, example_matrix 2 2 0 [1, 2, 3, 4])] 0
        False (SimpleDistGradAggregator False 0 32768 False)) = Inr [] \<and>
   fits_pack_threshold (example_env False False) (SimpleDistGradAggregator False 0 32768 False)
     (snd ([(100, example_matrix 2 2 0 [1, 2, 3, 4])] ! 0))"
  by (simp add: eval_defs)

text \<open>
  Claim C4, amended. After the first call of ResetState on N dense gradients, the packed
  buffer exists iff the element total of the gradients that pass the size test is not
  zero and the allocation succeeded. Position i is in the packed list iff
  sizeof(ElemType) * num_elements(i) (in size_t arithmetic) is at most the threshold,
  async aggregation is disabled and the packed buffer exists; otherwise it is in the
  standalone list. Every position is in exactly one of the two lists, once, and the
  lists hold nothing else but the sentinel. The packed list is not empty iff the packed
  buffer exists, and exactly then the sentinel NONE is the first element of the
  standalone list (and occurs nowhere else).
\<close>

theorem C4_packed_standalone_partition:
  assumes "fresh a" and "dense_gradients gs"
  shows "\<exists>a'. ResetState e NumProc IsMainNode gs numEvalNodes resetState a = Inr a' \<and>
           (m_aggregationBuffer a' \<noteq> None \<longleftrightarrow> 0 < packed_total e a gs \<and> nothrow_new_ok a) \<and>
           (\<forall>i < length gs.
              (i \<in> set (m_packedGradientsIndex a') \<longleftrightarrow>
                 fits_pack_threshold e a (snd (gs ! i)) \<and> m_aggregationBuffer a' \<noteq> None) \<and>
              (i \<in> set (m_gradientIndexToAggregate a') \<longleftrightarrow>
                 i \<notin> set (m_packedGradientsIndex a'))) \<and>
           set (m_packedGradientsIndex a') \<union> (set (m_gradientIndexToAggregate a') - {NONE}) =
             {0 ..< length gs} \<and>
           distinct (m_packedGradientsIndex a') \<and>
           distinct (m_gradientIndexToAggregate a') \<and>
           (m_packedGradientsIndex a' \<noteq> [] \<longleftrightarrow> m_aggregationBuffer a' \<noteq> None) \<and>
           (if m_packedGradientsIndex a' \<noteq> []
            then \<exists>rest. m_gradientIndexToAggregate a' = NONE # rest \<and> NONE \<notin> set rest
            else NONE \<notin> set (m_gradientIndexToAggregate a'))"
proof -
  let ?a' = "first_state e NumProc IsMainNode gs numEvalNodes a"
  have len: "length gs \<le> NONE"
    using assms(2) by (simp add: dense_gradients_def)
  have ne: "packed_list e a gs \<noteq> [] \<longleftrightarrow> packed_allocated e a gs"
    using packed_allocated_fitting [of e a gs] by (auto simp: packed_list_def)
  have 1: "m_aggregationBuffer ?a' \<noteq> None \<longleftrightarrow> 0 < packed_total e a gs \<and> nothrow_new_ok a"
    by (simp add: first_state_lists packed_allocated_def)
  have 2: "\<forall>i < length gs.
              (i \<in> set (m_packedGradientsIndex ?a') \<longleftrightarrow>
                 fits_pack_threshold e a (snd (gs ! i)) \<and> m_aggregationBuffer ?a' \<noteq> None) \<and>
              (i \<in> set (m_gradientIndexToAggregate ?a') \<longleftrightarrow>
                 i \<notin> set (m_packedGradientsIndex ?a'))"
    by (simp add: first_state_lists mem_packed_list mem_standalone_list [OF len])
  have 3: "set (m_packedGradientsIndex ?a') \<union> (set (m_gradientIndexToAggregate ?a') - {NONE}) =
             {0 ..< length gs}"
    by (simp only: first_state_lists lists_cover [OF len])
  have 4: "distinct (m_packedGradientsIndex ?a')" "distinct (m_gradientIndexToAggregate ?a')"
    by (simp_all only: first_state_lists lists_distinct [OF len])
  have 5: "m_packedGradientsIndex ?a' \<noteq> [] \<longleftrightarrow> m_aggregationBuffer ?a' \<noteq> None"
    by (simp add: first_state_lists ne)
  have 6: "if m_packedGradientsIndex ?a' \<noteq> []
           then \<exists>rest. m_gradientIndexToAggregate ?a' = NONE # rest \<and> NONE \<notin> set rest
           else NONE \<notin> set (m_gradientIndexToAggregate ?a')"
    using standalone_list_sentinel [OF len, of e a] by (simp add: first_state_lists ne)
  show ?thesis
    by (rule exI [of _ ?a'], intro conjI) (fact ResetState_fresh [OF assms] 1 2 3 4 5 6)+
qed

theorem C4_witness:
  "\<exists>a'. ResetState (example_env False False) 2 True
           [(100, example_matrix 2 2 0 [1, 2, 3, 4]), (200, example_matrix 100 100 0 [])] 0 False
           (SimpleDistGradAggregator False 0 32768 True) = Inr a' \<and>
         m_aggregationBuffer a' \<noteq> None \<and>
         0 \<in> set (m_packedGradientsIndex a') \<and> 1 \<notin> set (m_packedGradientsIndex a') \<and>
         0 \<notin> set (m_gradientIndexToAggregate a') \<and> 1 \<in> set (m_gradientIndexToAggregate a') \<and>
         m_packedGradientsIndex a' \<noteq> [] \<and>
         (\<exists>rest. m_gradientIndexToAggregate a' = NONE # rest \<and> NONE \<notin> set rest)"
proof -
  let ?a = "SimpleDistGradAggregator False 0 32768 True"
  let ?gs = "[(100 :: nat, example_matrix 2 2 0 [1, 2, 3, 4]), (200, example_matrix 100 100 0 [])]"
  let ?e = "example_env False False"
  have f: "fresh ?a" "dense_gradients ?gs"
    by (simp_all add: eval_defs)
  have t: "0 < packed_total ?e ?a ?gs \<and> nothrow_new_ok ?a"
    by (simp add: packed_total_def fits_def eval_defs)
  have p: "fits_pack_threshold ?e ?a (snd (?gs ! 0))" "\<not> fits_pack_threshold ?e ?a (snd (?gs ! 1))"
    by (simp_all add: eval_defs)
  from C4_packed_standalone_partition [OF f, of ?e 2 True 0 False] obtain a' where
    h: "ResetState ?e 2 True ?gs 0 False ?a = Inr a' \<and>
           (m_aggregationBuffer a' \<noteq> None \<longleftrightarrow> 0 < packed_total ?e ?a ?gs \<and> nothrow_new_ok ?a) \<and>
           (\<forall>i < length ?gs.
              (i \<in> set (m_packedGradientsIndex a') \<longleftrightarrow>
                 fits_pack_threshold ?e ?a (snd (?gs ! i)) \<and> m_aggregationBuffer a' \<noteq> None) \<and>
              (i \<in> set (m_gradientIndexToAggregate a') \<longleftrightarrow>
                 i \<notin> set (m_packedGradientsIndex a'))) \<and>
           set (m_packedGradientsIndex a') \<union> (set (m_gradientIndexToAggregate a') - {NONE}) =
             {0 ..< length ?gs} \<and>
           distinct (m_packedGradientsIndex a') \<and>
           distinct (m_gradientIndexToAggregate a') \<and>
           (m_packedGradientsIndex a' \<noteq> [] \<longleftrightarrow> m_aggregationBuffer a' \<noteq> None) \<and>
           (if m_packedGradientsIndex a' \<noteq> []
            then \<exists>rest. m_gradientIndexToAggregate a' = NONE # rest \<and> NONE \<notin> set rest
            else NONE \<notin> set (m_gradientIndexToAggregate a'))" ..
  from h have r: "ResetState ?e 2 True ?gs 0 False ?a = Inr a'" by (rule conjunct1)
  from h have b: "m_aggregationBuffer a' \<noteq> None \<longleftrightarrow> 0 < packed_total ?e ?a ?gs \<and> nothrow_new_ok ?a"
    by (elim conjE)
  from h have m: "\<forall>i < length ?gs.
              (i \<in> set (m_packedGradientsIndex a') \<longleftrightarrow>
                 fits_pack_threshold ?e ?a (snd (?gs ! i)) \<and> m_aggregationBuffer a' \<noteq> None) \<and>
              (i \<in> set (m_gradientIndexToAggregate a') \<longleftrightarrow>
                 i \<notin> set (m_packedGradientsIndex a'))"
    by (elim conjE)
  from h have n: "m_packedGradientsIndex a' \<noteq> [] \<longleftrightarrow> m_aggregationBuffer a' \<noteq> None"
    by (elim conjE)
  from h have s: "if m_packedGradientsIndex a' \<noteq> []
        then \<exists>rest. m_gradientIndexToAggregate a' = NONE # rest \<and> NONE \<notin> set rest
        else NONE \<notin> set (m_gradientIndexToAggregate a')"
    by (elim conjE)
  have al: "m_aggregationBuffer a' \<noteq> None"
    using b t by blast
  have m0: "0 \<in> set (m_packedGradientsIndex a')" "0 \<notin> set (m_gradientIndexToAggregate a')"
    using m [rule_format, of 0] p(1) al by simp_all
  have m1: "1 \<notin> set (m_packedGradientsIndex a')" "1 \<in> set (m_gradientIndexToAggregate a')"
    using m [rule_format, of 1] p(2) al by simp_all
  have ne: "m_packedGradientsIndex a' \<noteq> []"
    using n al by blast
  then have "\<exists>rest. m_gradientIndexToAggregate a' = NONE # rest \<and> NONE \<notin> set rest"
    using s by simp
  with r al m0 m1 ne show ?thesis
    by blast
qed

text \<open>
  Claim C7, as stated, fails: an aggregator that was initialised with a gradient of 16
  bytes keeps position 0 packed when ResetState is called again with resetState set and
  a gradient of 40000 bytes, which is above the threshold of 32768 bytes.
\<close>

theorem C7_counterexample:
  "map_sum id m_packedGradientsIndex
     (then_err
        (ResetState (example_env False False) 2 True [(100, example_matrix 2 2 0 [1, 2, 3, 4])] 0
           True (SimpleDistGradAggregator False 0 32768 True))
        (ResetState (example_env False False) 2 True [(100, example_matrix 100 100 0 [])] 0 True))
     = Inr [0] \<and>
   \<not> fits_pack_threshold (example_env False False) (SimpleDistGradAggregator False 0 32768 True)
       (snd ([(100, example_matrix 100 100 0 [])] ! 0))"
  by (simp add: eval_defs)

text \<open>
  Claim C7, amended. The gradients are classified and the packed buffer is allocated on
  the first call only: the first call of ResetState leaves the index lists and the packed
  buffer that the sizes of its gradients determine, and every later call that returns,
  with or without resetState, leaves both index lists and the packed buffer as they
  were. A later call on a synchronous aggregator returns, without a change.
\<close>

theorem C7_classification_on_first_call_only:
  "(fresh a \<and> dense_gradients gs \<longrightarrow>
      (\<exists>a'. ResetState e NumProc IsMainNode gs numEvalNodes resetState a = Inr a' \<and>
            m_packedGradientsIndex a' = packed_list e a gs \<and>
            m_gradientIndexToAggregate a' = standalone_list e a gs \<and>
            m_aggregationBuffer a' =
              (if packed_allocated e a gs
               then Some (new_Matrix 1 (packed_total e a gs) (DeviceId (snd (hd gs))))
               else None))) \<and>
   (m_initialized a \<longrightarrow>
      (\<forall>a'. ResetState e NumProc IsMainNode gs numEvalNodes resetState a = Inr a' \<longrightarrow>
            m_packedGradientsIndex a' = m_packedGradientsIndex a \<and>
            m_gradientIndexToAggregate a' = m_gradientIndexToAggregate a \<and>
            m_aggregationBuffer a' = m_aggregationBuffer a)) \<and>
   (m_initialized a \<and> \<not> m_useAsyncAggregation a \<longrightarrow>
      ResetState e NumProc IsMainNode gs numEvalNodes resetState a = Inr a)"
proof (intro conjI impI allI)
  assume "fresh a \<and> dense_gradients gs"
  then have "ResetState e NumProc IsMainNode gs numEvalNodes resetState a =
               Inr (first_state e NumProc IsMainNode gs numEvalNodes a)"
    by (simp add: ResetState_fresh)
  then show "\<exists>a'. ResetState e NumProc IsMainNode gs numEvalNodes resetState a = Inr a' \<and>
            m_packedGradientsIndex a' = packed_list e a gs \<and>
            m_gradientIndexToAggregate a' = standalone_list e a gs \<and>
            m_aggregationBuffer a' =
              (if packed_allocated e a gs
               then Some (new_Matrix 1 (packed_total e a gs) (DeviceId (snd (hd gs))))
               else None)"
    by (simp add: first_state_lists)
next
  fix a'
  assume i: "m_initialized a"
    and r: "ResetState e NumProc IsMainNode gs numEvalNodes resetState a = Inr a'"
  have "a' = a \<or> (\<exists>b h. a' = a\<lparr>m_bufferedGradients := b, m_bufferedGradHeader := Some (Clear h)\<rparr>)"
    using i r
    by (auto simp: ResetState_def ResetState_again_def split: if_splits sum.splits option.splits)
  then show "m_packedGradientsIndex a' = m_packedGradientsIndex a"
    "m_gradientIndexToAggregate a' = m_gradientIndexToAggregate a"
    "m_aggregationBuffer a' = m_aggregationBuffer a"
    by auto
next
  assume "m_initialized a \<and> \<not> m_useAsyncAggregation a"
  then show "ResetState e NumProc IsMainNode gs numEvalNodes resetState a = Inr a"
    by (simp add: ResetState_def ResetState_again_def)
qed

theorem C7_witness:
  "(\<exists>a'. ResetState (example_env False False) 2 True
            [(100, example_matrix 2 2 0 [1, 2, 3, 4])] 0 True
            (SimpleDistGradAggregator False 0 32768 True) = Inr a' \<and>
          m_packedGradientsIndex a' = [0] \<and>
          m_gradientIndexToAggregate a' = [NONE] \<and>
          m_aggregationBuffer a' = Some (new_Matrix 1 4 0)) \<and>
   ResetState (example_env False False) 2 True [(100, example_matrix 100 100 0 [])] 0 True
     (first_state (example_env False False) 2 True [(100, example_matrix 2 2 0 [1, 2, 3, 4])] 0
        (SimpleDistGradAggregator False 0 32768 True)) =
   Inr (first_state (example_env False False) 2 True [(100, example_matrix 2 2 0 [1, 2, 3, 4])] 0
          (SimpleDistGradAggregator False 0 32768 True))"
proof -
  let ?a = "SimpleDistGradAggregator False 0 32768 True"
  let ?gs = "[(100 :: nat, example_matrix 2 2 0 [1, 2, 3, 4])]"
  let ?e = "example_env False False"
  let ?a1 = "first_state ?e 2 True ?gs 0 ?a"
  have f: "fresh ?a \<and> dense_gradients ?gs"
    by (simp add: eval_defs)
  have v: "packed_list ?e ?a ?gs = [0]" "standalone_list ?e ?a ?gs = [NONE]"
    "packed_allocated ?e ?a ?gs" "packed_total ?e ?a ?gs = 4"
    by (simp_all add: packed_list_def standalone_list_def packed_allocated_def packed_total_def
        fitting_def not_fitting_def fits_def eval_defs)
  have d: "DeviceId (snd (hd ?gs)) = 0"
    by (simp add: example_matrix_def)
  have i: "m_initialized ?a1 \<and> \<not> m_useAsyncAggregation ?a1"
    by (simp add: first_state_def SimpleDistGradAggregator_def)
  show ?thesis
    using C7_classification_on_first_call_only
            [of ?a ?gs ?e 2 True 0 True, THEN conjunct1, rule_format, OF f]
          C7_classification_on_first_call_only
            [of ?a1 "[(100, example_matrix 100 100 0 [])]" ?e 2 True 0 True,
             THEN conjunct2, THEN conjunct2, rule_format, OF i]
    by (simp only: v d if_True)
qed

text \<open>
  Claim C6. ResetState with resetState set, on an initialised aggregator in async mode
  whose future is valid, ends with a logic error. An initialised aggregator exists only
  in a job of more than one rank (with one rank AggregateGradients returns before
  ResetState); there AggregateGradients, called with resetState set while the previous
  task of every rank is pending, ends with that logic error.
\<close>

theorem C6_reset_while_pending_is_logic_error:
  "(m_initialized a \<and> m_useAsyncAggregation a \<and> m_pendingAsyncAggregation a \<noteq> None \<longrightarrow>
      ResetState e NumProc IsMainNode gs numEvalNodes True a = Inl LogicError) \<and>
   (w \<noteq> [] \<and> length w \<noteq> 1 \<and>
    (\<forall>k \<in> set w. m_initialized (aggr k) \<and> m_useAsyncAggregation (aggr k) \<and>
                  m_pendingAsyncAggregation (aggr k) \<noteq> None) \<longrightarrow>
      AggregateGradients e ord True w = Inl LogicError)"
proof (intro conjI impI)
  assume "m_initialized a \<and> m_useAsyncAggregation a \<and> m_pendingAsyncAggregation a \<noteq> None"
  then show "ResetState e NumProc IsMainNode gs numEvalNodes True a = Inl LogicError"
    by (simp add: ResetState_def ResetState_again_def)
next
  assume h: "w \<noteq> [] \<and> length w \<noteq> 1 \<and>
    (\<forall>k \<in> set w. m_initialized (aggr k) \<and> m_useAsyncAggregation (aggr k) \<and>
                  m_pendingAsyncAggregation (aggr k) \<noteq> None)"
  then obtain k ks where w: "w = k # ks"
    by (cases w) auto
  have "enter_rank e (length w) True 0 k = Inl LogicError"
    using h w by (simp add: enter_rank_def ResetState_def ResetState_again_def)
  then have "sequence_err (map2 (enter_rank e (length w) True) [0 ..< length w] w) = Inl LogicError"
    by (simp add: w upt_conv_Cons del: upt_Suc)
  then show "AggregateGradients e ord True w = Inl LogicError"
    using h by (simp add: AggregateGradients_def)
qed

lemma list_all_set_conv: "(\<forall>x \<in> set xs. P x) = list_all P xs"
  by (simp add: list_all_iff)

lemma example_async_first_call:
  "\<exists>rets w1.
     AggregateGradients (example_env False False) [] True
       [example_rank True 10 [1, 2, 3, 4], example_rank True 5 [5, 6, 7, 8]] = Inr (rets, w1) \<and>
     w1 \<noteq> [] \<and> length w1 \<noteq> 1 \<and>
     list_all (\<lambda>k. m_initialized (aggr k) \<and> m_useAsyncAggregation (aggr k) \<and>
                   m_pendingAsyncAggregation (aggr k) \<noteq> None) w1"
  by (simp add: AggregateGradients_def AggregateGradients_async_def enter_rank_def
      join_pending_def swap_rank_def dispatch_rank_def example_rank_def eval_defs)

theorem C6_witness:
  "then_err
     (AggregateGradients (example_env False False) [] True
        [example_rank True 10 [1, 2, 3, 4], example_rank True 5 [5, 6, 7, 8]])
     (\<lambda>r. AggregateGradients (example_env False False) [] True (snd r)) = Inl LogicError"
proof -
  from example_async_first_call obtain rets w1 where
    r: "AggregateGradients (example_env False False) [] True
          [example_rank True 10 [1, 2, 3, 4], example_rank True 5 [5, 6, 7, 8]] = Inr (rets, w1)"
    and h: "w1 \<noteq> [] \<and> length w1 \<noteq> 1 \<and>
      (\<forall>k \<in> set w1. m_initialized (aggr k) \<and> m_useAsyncAggregation (aggr k) \<and>
                   m_pendingAsyncAggregation (aggr k) \<noteq> None)"
    unfolding list_all_iff by blast
  show ?thesis
    using C6_reset_while_pending_is_logic_error
            [where w = w1 and e = "example_env False False" and ord = "[]",
             THEN conjunct2, rule_format, OF h]
    by (simp add: r then_err_def)
qed

section \<open>Results on AsyncAggregateGradHeader and DistributedAllReduce\<close>

lemmas [eval_defs] =
  AsyncAggregateGradHeader_def AsyncAggregateGradHeaderImpl_def enter_header_rank_def
  header_rendezvous_def post_receives_def samples_tag_def Bcast_def Waitany_def completable_def
  Aggregate_def add_evalError_def example_rank_def example_impl_rank_def

text \<open>
  Claim C8 (the code departs from it). Two ranks, rank 0 the main rank, call
  AsyncAggregateGradHeader twice, each time with 5 samples in the header of both ranks.
  Both calls return, and the receive-header array of the main rank then has 2 entries,
  one more than world_size - 1.
\<close>

theorem C8_receive_headers_grow:
  "map_sum id (\<lambda>r. length (m_recvHeaders (aggr (snd r ! 0))))
     (then_err
        (AsyncAggregateGradHeader (example_env False False) []
           [example_rank False 5 [1, 2, 3, 4], example_rank False 5 [5, 6, 7, 8]])
        (\<lambda>r. AsyncAggregateGradHeader (example_env False False) [] (snd r))) = Inr 2"
  by (simp add: eval_defs wait_headers.simps)

section \<open>Results on the collectives\<close>

lemma length_reduce_buffers:
  "vs \<noteq> [] \<Longrightarrow> \<forall>v \<in> set vs. length v = n \<Longrightarrow> length (reduce_buffers op vs) = n"
  by (induction op vs rule: reduce_buffers.induct) simp_all

lemma copy_elements_all: "length src = n \<Longrightarrow> length dst = n \<Longrightarrow> copy_elements src n dst = src"
  by (simp add: copy_elements_def)

lemma copy_elements_take:
  "n \<le> length src \<Longrightarrow> take n (copy_elements src n dst) = take n src"
  by (simp add: copy_elements_def)

lemma copy_elements_prefix:
  "length src = n \<Longrightarrow> copy_elements src n dst = src @ drop n dst"
  by (simp add: copy_elements_def)






section \<open>Results on AggregateGradients\<close>

lemma sequence_err_Inr:
  "sequence_err xs = Inr ys \<Longrightarrow> xs = map Inr ys"
  by (induction xs arbitrary: ys) (auto split: sum.splits)

lemma sequence_err_map_Inr:
  assumes "sequence_err (map f xs) = Inr ys"
  shows "length ys = length xs" and "\<And>i. i < length xs \<Longrightarrow> f (xs ! i) = Inr (ys ! i)"
proof -
  from sequence_err_Inr [OF assms] have m: "map f xs = map Inr ys" .
  then show l: "length ys = length xs"
    by (metis length_map)
  fix i assume "i < length xs"
  then show "f (xs ! i) = Inr (ys ! i)"
    using m l by (metis nth_map)
qed

lemma ResetState_first_async:
  "ResetState_first e NumProc IsMainNode gs numEvalNodes d a1 sz = Inr a' \<Longrightarrow>
     m_useAsyncAggregation a' = m_useAsyncAggregation a1"
  by (cases "ShouldCopyDataToCPU e d"; cases "m_useAsyncAggregation a1"; cases IsMainNode;
      cases "0 < sz \<and> nothrow_new_ok a1")
     (auto simp: ResetState_first_def Let_def split: sum.splits)

lemma ResetState_async:
  assumes "ResetState e NumProc IsMainNode gs numEvalNodes resetState a = Inr a'"
  shows "m_useAsyncAggregation a' = m_useAsyncAggregation a"
proof (cases "m_initialized a")
  case True
  then have "a' = a \<or> (\<exists>b h. a' = a\<lparr>m_bufferedGradients := b, m_bufferedGradHeader := Some (Clear h)\<rparr>)"
    using assms
    by (auto simp: ResetState_def ResetState_again_def split: if_splits sum.splits option.splits)
  then show ?thesis by auto
next
  case False
  let ?d = "DeviceId (snd (hd gs))"
  let ?a0 = "a\<lparr>m_initialized := True, m_allocator := (m_allocator a \<or> ShouldCopyDataToCPU e ?d)\<rparr>"
  from False assms have
    "ResetState_first e NumProc IsMainNode gs numEvalNodes ?d (classified e ?d 0 gs ?a0)
       (packed_size e (m_useAsyncAggregation ?a0) (m_packThresholdSizeInBytes ?a0) gs 0) = Inr a'"
    by (auto simp: ResetState_def classify_gradients_eq Let_def split: if_splits)
  from ResetState_first_async [OF this] show ?thesis
    by (simp add: classified_def)
qed

lemma enter_rank_async:
  "enter_rank e NumProc resetState r k = Inr k' \<Longrightarrow>
     m_useAsyncAggregation (aggr k') = m_useAsyncAggregation (aggr k)"
  by (auto simp: enter_rank_def split: sum.splits dest!: ResetState_async)

lemma sequence_err_map2_Inr:
  assumes "sequence_err (map2 f xs ys) = Inr zs"
  shows "length zs = min (length xs) (length ys)"
    and "\<And>i. i < length xs \<Longrightarrow> i < length ys \<Longrightarrow> f (xs ! i) (ys ! i) = Inr (zs ! i)"
proof -
  from sequence_err_Inr [OF assms] have m: "map2 f xs ys = map Inr zs" .
  then have "length (map2 f xs ys) = length (map Inr zs)" by simp
  then show l: "length zs = min (length xs) (length ys)" by simp
  fix i assume i: "i < length xs" "i < length ys"
  then have "map2 f xs ys ! i = f (xs ! i) (ys ! i)" by simp
  moreover have "map Inr zs ! i = Inr (zs ! i)" using i l by simp
  ultimately show "f (xs ! i) (ys ! i) = Inr (zs ! i)" using m by metis
qed

lemma entered_async:
  assumes "sequence_err (map2 (enter_rank e n resetState) [0 ..< length w] w) = Inr w1"
  shows "length w1 = length w"
    and "\<And>i. i < length w \<Longrightarrow>
           m_useAsyncAggregation (aggr (w1 ! i)) = m_useAsyncAggregation (aggr (w ! i))"
proof -
  show "length w1 = length w"
    using sequence_err_map2_Inr(1) [OF assms] by simp
  fix i assume i: "i < length w"
  then have "enter_rank e n resetState ([0 ..< length w] ! i) (w ! i) = Inr (w1 ! i)"
    using sequence_err_map2_Inr(2) [OF assms, of i] by simp
  then show "m_useAsyncAggregation (aggr (w1 ! i)) = m_useAsyncAggregation (aggr (w ! i))"
    by (rule enter_rank_async)
qed

lemma all_set_nth: "(\<forall>x \<in> set xs. P x) \<longleftrightarrow> (\<forall>i < length xs. P (xs ! i))"
  by (simp add: all_set_conv_all_nth)

section \<open>Results on the header rendezvous\<close>

lemma active_msgs_append: "active_msgs (xs @ ys) = active_msgs xs @ active_msgs ys"
  by (simp add: active_msgs_def)

lemma active_msgs_update:
  assumes "idx < length reqs" and "reqs ! idx = Active (Some m)"
  shows "mset (active_msgs reqs) = add_mset m (mset (active_msgs (reqs[idx := Inactive])))"
proof -
  have "take idx reqs @ [Active (Some m)] @ drop (Suc idx) reqs = reqs"
    using assms id_take_nth_drop [of idx reqs] by simp
  then have "active_msgs reqs =
      active_msgs (take idx reqs @ [Active (Some m)] @ drop (Suc idx) reqs)"
    by (rule arg_cong [symmetric])
  moreover have "reqs[idx := Inactive] = take idx reqs @ [Inactive] @ drop (Suc idx) reqs"
    using assms(1) by (simp add: upd_conv_take_nth_drop)
  then have "active_msgs (reqs[idx := Inactive]) =
      active_msgs (take idx reqs @ [Inactive] @ drop (Suc idx) reqs)"
    by (rule arg_cong)
  ultimately show ?thesis
    by (simp add: active_msgs_def)
qed

lemma completable_iff: "completable reqs j \<longleftrightarrow> j < length reqs \<and> (\<exists>m. reqs ! j = Active (Some m))"
  by (auto simp: completable_def split: request.splits option.splits)

lemma Waitany_Completed:
  assumes "all_arrive reqs" and "\<exists>q \<in> set reqs. q \<noteq> Inactive"
  shows "\<exists>idx m. Waitany reqs ord = Completed idx \<and> idx < length reqs \<and>
           reqs ! idx = Active (Some m)"
proof -
  from assms(2) obtain j where j: "j < length reqs" "reqs ! j \<noteq> Inactive"
    by (auto simp: in_set_conv_nth)
  moreover have "reqs ! j \<noteq> Active None"
    using assms(1) j(1) by (auto simp: all_arrive_def list_all_length)
  ultimately have "completable reqs j"
    by (cases "reqs ! j") (auto simp: completable_iff)
  then have "j \<in> set (filter (completable reqs) (ord @ [0 ..< length reqs]))"
    using j(1) by simp
  then have "filter (completable reqs) (ord @ [0 ..< length reqs]) \<noteq> []"
    by (metis empty_iff list.set(1))
  then obtain idx rest where f: "filter (completable reqs) (ord @ [0 ..< length reqs]) = idx # rest"
    by (cases "filter (completable reqs) (ord @ [0 ..< length reqs])") blast+
  then have "idx \<in> set (filter (completable reqs) (ord @ [0 ..< length reqs]))"
    by simp
  then have "completable reqs idx"
    by auto
  then show ?thesis
    using f by (auto simp: Waitany_def completable_iff simp del: filter_append)
qed

lemma all_arrive_update: "all_arrive reqs \<Longrightarrow> all_arrive (reqs[idx := Inactive])"
  using set_update_subset_insert [of reqs idx Inactive]
  by (auto simp: all_arrive_def list_all_iff)

lemma active_msgs_empty:
  assumes "all_arrive reqs" and "active_msgs reqs = []"
  shows "\<forall>q \<in> set reqs. q = Inactive"
proof
  fix q assume q: "q \<in> set reqs"
  then have "q \<noteq> Active None"
    using assms(1) by (auto simp: all_arrive_def list_all_iff)
  moreover have "(case q of Active (Some m) \<Rightarrow> [m] | _ \<Rightarrow> []) = []"
    using assms(2) q by (auto simp: active_msgs_def)
  ultimately show "q = Inactive"
    by (cases q) (auto split: option.splits)
qed

text \<open>
  When every receive gets its message and as many receives are active as headers are
  still expected, the loop of the main rank returns, and its header is the old one with
  the messages folded in, in some order.
\<close>

lemma wait_headers_folds:
  assumes "all_arrive reqs" and "length (active_msgs reqs) = NumProc - 1 - n"
  shows "\<exists>recv' ms. wait_headers NumProc n ord reqs recv h = Inr (recv', foldl Aggregate h ms) \<and>
           mset ms = mset (active_msgs reqs) \<and> length recv' = length recv"
  using assms
proof (induction "NumProc - 1 - n" arbitrary: n reqs recv h)
  case 0
  then have "\<not> n < NumProc - 1" by simp
  then have "wait_headers NumProc n ord reqs recv h = Inr (recv, foldl Aggregate h [])"
    by (simp add: wait_headers.simps)
  moreover have "active_msgs reqs = []" using 0 by simp
  ultimately show ?case by (metis mset.simps(1))
next
  case (Suc k)
  then have lt: "n < NumProc - 1" by simp
  have "active_msgs reqs \<noteq> []" using Suc(2,4) by auto
  have "\<exists>q \<in> set reqs. q \<noteq> Inactive"
  proof (rule ccontr)
    assume "\<not> (\<exists>q \<in> set reqs. q \<noteq> Inactive)"
    then have "\<forall>q \<in> set reqs. q = Inactive" by blast
    then have "active_msgs reqs = []" by (auto simp: active_msgs_def)
    with \<open>active_msgs reqs \<noteq> []\<close> show False by simp
  qed
  from Waitany_Completed [OF Suc(3) this, of ord] obtain idx m where
    w: "Waitany reqs ord = Completed idx" and i: "idx < length reqs"
    and m: "reqs ! idx = Active (Some m)"
    by blast
  let ?reqs = "reqs[idx := Inactive]"
  have ms: "mset (active_msgs reqs) = add_mset m (mset (active_msgs ?reqs))"
    by (rule active_msgs_update [OF i m])
  then have "size (mset (active_msgs reqs)) = Suc (size (mset (active_msgs ?reqs)))"
    by simp
  then have len: "length (active_msgs ?reqs) = NumProc - 1 - Suc n"
    using Suc(2,4) by simp
  have k: "k = NumProc - 1 - Suc n" using Suc(2) by simp
  from Suc(1) [OF k all_arrive_update [OF Suc(3)] len, of "recv[idx := Clear m]" "Aggregate h m"]
  obtain recv' ms' where
    r: "wait_headers NumProc (Suc n) ord ?reqs (recv[idx := Clear m]) (Aggregate h m) =
          Inr (recv', foldl Aggregate (Aggregate h m) ms')"
    and p: "mset ms' = mset (active_msgs ?reqs)" and l: "length recv' = length recv"
    by auto
  have "wait_headers NumProc n ord reqs recv h = Inr (recv', foldl Aggregate h (m # ms'))"
    using lt w m r by (subst wait_headers.simps) simp
  moreover have "mset (m # ms') = mset (active_msgs reqs)"
    using ms p by simp
  ultimately show ?case using l by blast
qed

lemma post_receives_matched:
  assumes "main < length hdrs" and "\<forall>j < length hdrs. tags ! j = tags ! main"
  shows "post_receives main tags hdrs =
           map (\<lambda>j. Active (Some (hdrs ! (if j \<ge> main then j + 1 else j)))) [0 ..< length hdrs - 1]"
proof -
  have "tags ! (if j \<ge> main then j + 1 else j) = tags ! main" if "j < length hdrs - 1" for j
  proof -
    from that have "(if j \<ge> main then j + 1 else j) < length hdrs" by auto
    with assms(2) show ?thesis by blast
  qed
  then show ?thesis
    unfolding post_receives_def Let_def by (intro map_cong refl) simp
qed

lemma others_as_map:
  assumes "main < length (hdrs :: 'a list)"
  shows "map (\<lambda>j. hdrs ! (if j \<ge> main then j + 1 else j)) [0 ..< length hdrs - 1] =
           take main hdrs @ drop (Suc main) hdrs"
proof (rule nth_equalityI)
  show "length (map (\<lambda>j. hdrs ! (if j \<ge> main then j + 1 else j)) [0 ..< length hdrs - 1]) =
          length (take main hdrs @ drop (Suc main) hdrs)"
    using assms by simp
next
  fix i assume "i < length (map (\<lambda>j. hdrs ! (if j \<ge> main then j + 1 else j)) [0 ..< length hdrs - 1])"
  then have i: "i < length hdrs - 1" by simp
  show "map (\<lambda>j. hdrs ! (if j \<ge> main then j + 1 else j)) [0 ..< length hdrs - 1] ! i =
          (take main hdrs @ drop (Suc main) hdrs) ! i"
    using i assms by (auto simp: nth_append min_def)
qed

lemma active_msgs_all: "active_msgs (map (\<lambda>j. Active (Some (f j))) js) = map f js"
  by (induction js) (simp_all add: active_msgs_def)

lemma all_arrive_all: "all_arrive (map (\<lambda>j. Active (Some (f j))) js)"
  by (simp add: all_arrive_def list_all_iff)

text \<open>
  The rendezvous with matching tags: the loop returns, the main rank has folded the
  headers of the other ranks into its own, and every rank ends with that header.
\<close>

lemma header_rendezvous_folds:
  assumes "MainNodeRank e < length hdrs"
    and "\<forall>j < length hdrs. tags ! j = tags ! MainNodeRank e"
  shows "\<exists>recv' ms.
           header_rendezvous e ord (post_receives (MainNodeRank e) tags hdrs) recv hdrs =
             Inr (recv', map (\<lambda>h. foldl Aggregate (hdrs ! MainNodeRank e) ms) hdrs) \<and>
           mset ms = mset (take (MainNodeRank e) hdrs @ drop (Suc (MainNodeRank e)) hdrs) \<and>
           length recv' = length recv"
proof -
  let ?main = "MainNodeRank e"
  let ?reqs = "map (\<lambda>j. Active (Some (hdrs ! (if j \<ge> ?main then j + 1 else j)))) [0 ..< length hdrs - 1]"
  have p: "post_receives ?main tags hdrs = ?reqs"
    by (rule post_receives_matched [OF assms])
  have a: "active_msgs ?reqs = take ?main hdrs @ drop (Suc ?main) hdrs"
    unfolding active_msgs_all by (rule others_as_map [OF assms(1)])
  have l: "length (active_msgs ?reqs) = length hdrs - 1 - 0"
    unfolding active_msgs_all by simp
  from wait_headers_folds [OF all_arrive_all l, of ord recv "hdrs ! ?main"]
  obtain recv' ms where
    w: "wait_headers (length hdrs) 0 ord ?reqs recv (hdrs ! ?main) =
          Inr (recv', foldl Aggregate (hdrs ! ?main) ms)"
    and m: "mset ms = mset (active_msgs ?reqs)" and r: "length recv' = length recv"
    by blast
  have "header_rendezvous e ord (post_receives ?main tags hdrs) recv hdrs =
          Inr (recv', map (\<lambda>h. foldl Aggregate (hdrs ! ?main) ms) hdrs)"
    unfolding p header_rendezvous_def w using assms(1)
    by (simp add: Bcast_def map_replicate_const)
  then show ?thesis
    using m r unfolding a by blast
qed

lemma foldl_Aggregate_fields:
  "numSamples (foldl Aggregate h ms) = numSamples h + sum_list (map numSamples ms)"
  "numSamplesWithLabel (foldl Aggregate h ms) =
     numSamplesWithLabel h + sum_list (map numSamplesWithLabel ms)"
  "criterion (foldl Aggregate h ms) = criterion h + sum_list (map criterion ms)"
  "numEvalNode (foldl Aggregate h ms) = numEvalNode h"
  by (induction ms arbitrary: h) (simp_all add: Aggregate_def add.assoc)


lemma sum_list_mset_cong:
  fixes f :: "'a \<Rightarrow> 'b :: comm_monoid_add"
  shows "mset xs = mset ys \<Longrightarrow> sum_list (map f xs) = sum_list (map f ys)"
  by (metis mset_map sum_mset_sum_list)

lemma sum_list_split_at:
  fixes f :: "'a \<Rightarrow> 'b :: comm_monoid_add"
  assumes "k < length xs"
  shows "f (xs ! k) + sum_list (map f (take k xs @ drop (Suc k) xs)) = sum_list (map f xs)"
proof -
  have "sum_list (map f xs) = sum_list (map f (take k xs @ xs ! k # drop (Suc k) xs))"
    using assms by (simp add: id_take_nth_drop [symmetric])
  then show ?thesis
    by (simp add: add.left_commute add.commute)
qed


section \<open>Results on the buffers of a rank\<close>

lemma read_write_same: "valid_buffer p b \<Longrightarrow> read_buffer (write_buffer b xs p) b = xs"
  by (cases b) auto

lemma read_write_other: "b' \<noteq> b \<Longrightarrow> read_buffer (write_buffer b xs p) b' = read_buffer p b'"
  by (cases b; cases b') (auto simp: nth_list_update)

lemma GetNumElements_Data [simp]: "GetNumElements (m\<lparr>Data := xs\<rparr>) = GetNumElements m"
  by (simp add: GetNumElements_def)

lemma nth_update_Data:
  "GetNumElements (gs[i := (gs ! i)\<lparr>Data := xs\<rparr>] ! j) = GetNumElements (gs ! j)"
  by (cases "i < length gs") (auto simp: nth_list_update GetNumElements_def list_update_beyond)

lemma num_elements_write:
  "is_device b' \<Longrightarrow> num_elements (write_buffer b xs p) b' = num_elements p b'"
  by (cases b; cases b') (auto simp: nth_update_Data split: option.splits)

lemma valid_write: "valid_buffer (write_buffer b xs p) b' = valid_buffer p b'"
  by (cases b; cases b') auto

lemma write_buffer_fields:
  "hdr (write_buffer b xs p) = hdr p"
  "m_packedGradientsIndex (st (write_buffer b xs p)) = m_packedGradientsIndex (st p)"
  "m_gradientIndexToAggregate (st (write_buffer b xs p)) = m_gradientIndexToAggregate (st p)"
  "m_recvHeaders (st (write_buffer b xs p)) = m_recvHeaders (st p)"
  "length (m_intermediateCPUBuffers (st (write_buffer b xs p))) =
     length (m_intermediateCPUBuffers (st p))"
  "length (grads (write_buffer b xs p)) = length (grads p)"
  by (cases b; simp)+

lemma frame_write: "frame p (write_buffer b xs p)"
  unfolding frame_def write_buffer_fields
  by (simp add: num_elements_write valid_write)

lemma frame_refl: "frame p p"
  by (simp add: frame_def)

lemma frame_trans: "frame p q \<Longrightarrow> frame q r \<Longrightarrow> frame p r"
  by (simp add: frame_def)

lemma num_elements_write_host:
  "length xs = length (read_buffer p (IntermediateCPUBuffer k)) \<Longrightarrow>
     num_elements (write_buffer (IntermediateCPUBuffer k) xs p) b' = num_elements p b'"
  by (cases b'; cases "k < length (m_intermediateCPUBuffers (st p))")
     (auto simp: nth_list_update list_update_beyond)

section \<open>Results on the transports\<close>

lemma reduced_on_refl: "reduced_on {} w w"
  by (simp add: reduced_on_def frame_refl)

lemma map_eq_nth:
  assumes "length xs = length ys" and "\<And>i. i < length ys \<Longrightarrow> f (xs ! i) = g (ys ! i)"
  shows "map f xs = map g ys"
  using assms by (intro nth_equalityI) simp_all

lemma uniform_length_reduce:
  assumes "w \<noteq> []" and "uniform_buffer w b"
  shows "length (reduce_buffers op (map (\<lambda>p. read_buffer p b) w)) = num_elements (hd w) b"
proof (rule length_reduce_buffers)
  show "map (\<lambda>p. read_buffer p b) w \<noteq> []"
    using assms(1) by simp
  show "\<forall>v \<in> set (map (\<lambda>p. read_buffer p b) w). length v = num_elements (hd w) b"
  proof
    fix v assume "v \<in> set (map (\<lambda>p. read_buffer p b) w)"
    then obtain p where p: "p \<in> set w" and v: "v = read_buffer p b"
      by auto
    from assms(2) p have "length (read_buffer p b) = num_elements p b"
      and "num_elements p b = num_elements (hd w) b"
      unfolding uniform_buffer_def by blast+
    then show "length v = num_elements (hd w) b"
      unfolding v by (rule trans)
  qed
qed

text \<open>
  One all-reduce in place on a device buffer that has not been reduced yet adds it to
  the reduced buffers.
\<close>

lemma AllReduce_reduced_on:
  assumes red: "reduced_on B w x" and uni: "uniform_buffer w b" and dev: "is_device b"
    and new: "b \<notin> B" and ne: "w \<noteq> []"
  shows "reduced_on (insert b B) w (AllReduce MPI_SUM b b x)"
proof -
  let ?n = "num_elements (hd w) b"
  let ?R = "reduce_buffers MPI_SUM (map (\<lambda>p. read_buffer p b) w)"
  from red have len: "length x = length w"
    and fr: "\<And>r. r < length w \<Longrightarrow> frame (w ! r) (x ! r)"
    and rd: "\<And>r b. r < length w \<Longrightarrow> is_device b \<Longrightarrow>
               read_buffer (x ! r) b = (if b \<in> B then reduce_buffers MPI_SUM (map (\<lambda>p. read_buffer p b) w)
                 else read_buffer (w ! r) b)"
    by (simp_all add: reduced_on_def)
  have u: "valid_buffer (w ! r) b" "length (read_buffer (w ! r) b) = ?n" "num_elements (w ! r) b = ?n"
    if "r < length w" for r
  proof -
    from that have "w ! r \<in> set w" by simp
    with uni have a: "valid_buffer (w ! r) b" and b: "length (read_buffer (w ! r) b) = num_elements (w ! r) b"
      and c: "num_elements (w ! r) b = ?n"
      unfolding uniform_buffer_def by blast+
    show "valid_buffer (w ! r) b" by (rule a)
    show "num_elements (w ! r) b = ?n" by (rule c)
    show "length (read_buffer (w ! r) b) = ?n" using b c by (rule trans)
  qed
  have same: "read_buffer (x ! r) b = read_buffer (w ! r) b" "num_elements (x ! r) b = ?n"
    "valid_buffer (x ! r) b" if "r < length w" for r
    using rd [OF that dev] new fr [OF that] u [OF that] dev by (simp_all add: frame_def)
  have m: "map (\<lambda>p. take (num_elements p b) (read_buffer p b)) x = map (\<lambda>p. read_buffer p b) w"
    by (rule map_eq_nth [OF len]) (simp add: same u)
  have lR: "length ?R = ?n"
    by (rule uniform_length_reduce [OF ne uni])
  have step: "AllReduce MPI_SUM b b x ! r = write_buffer b ?R (x ! r)" if "r < length w" for r
    using that len lR
    by (simp add: AllReduce_def Let_def m same u copy_elements_all)
  show ?thesis
    unfolding reduced_on_def
  proof (intro conjI allI impI)
    show "length (AllReduce MPI_SUM b b x) = length w"
      using len by (simp add: AllReduce_def Let_def)
  next
    fix r assume r: "r < length w"
    show "frame (w ! r) (AllReduce MPI_SUM b b x ! r)"
      unfolding step [OF r] by (rule frame_trans [OF fr [OF r] frame_write])
  next
    fix r b' assume r: "r < length w" and d: "is_device b'"
    show "read_buffer (AllReduce MPI_SUM b b x ! r) b' =
            (if b' \<in> insert b B then reduce_buffers MPI_SUM (map (\<lambda>p. read_buffer p b') w)
             else read_buffer (w ! r) b')"
    proof (cases "b' = b")
      case True
      then show ?thesis
        unfolding step [OF r] by (simp add: read_write_same same(3) [OF r])
    next
      case False
      then show ?thesis
        unfolding step [OF r] by (simp add: read_write_other rd [OF r d])
    qed
  qed
qed

lemma nccl_AllReduce_reduced_on:
  assumes "reduced_on B w x" and "\<forall>b \<in> set bs. uniform_buffer w b \<and> is_device b"
    and "distinct bs" and "set bs \<inter> B = {}" and "w \<noteq> []"
  shows "reduced_on (set bs \<union> B) w (nccl_AllReduce bs x)"
  using assms
proof (induction bs arbitrary: B x)
  case Nil
  then show ?case by simp
next
  case (Cons b bs)
  have s: "reduced_on (insert b B) w (AllReduce MPI_SUM b b x)"
    using Cons.prems by (intro AllReduce_reduced_on) auto
  have "reduced_on (set bs \<union> insert b B) w (nccl_AllReduce bs (AllReduce MPI_SUM b b x))"
    using Cons.prems by (intro Cons.IH [OF s]) auto
  then show ?case by simp
qed

lemma inplace_loop_reduced_on:
  assumes "reduced_on B w x" and "\<forall>b \<in> set (map buffer_of_index L). uniform_buffer w b \<and> is_device b"
    and "distinct (map buffer_of_index L)" and "set (map buffer_of_index L) \<inter> B = {}"
    and "w \<noteq> []" and "\<not> UseGpuGdr e \<or> deviceId \<noteq> CPUDEVICE"
  shows "reduced_on (set (map buffer_of_index L) \<union> B) w (fst (inplace_loop e deviceId L (x, k)))"
  using assms(1-4)
proof (induction L arbitrary: B x k)
  case Nil
  then show ?case by simp
next
  case (Cons i L)
  let ?b = "buffer_of_index i"
  have s: "reduced_on (insert ?b B) w (AllReduce MPI_SUM ?b ?b x)"
    using Cons.prems assms(5) by (intro AllReduce_reduced_on) auto
  have "reduced_on (set (map buffer_of_index L) \<union> insert ?b B) w
          (fst (inplace_loop e deviceId L (AllReduce MPI_SUM ?b ?b x, k')))" for k'
    using Cons.prems by (intro Cons.IH [OF s]) auto
  then show ?case
    using assms(6) by auto
qed

section \<open>Results on the staged pipeline\<close>

declare write_buffer.simps [simp del] read_buffer.simps [simp del] num_elements.simps [simp del]
  valid_buffer.simps [simp del]

lemma is_device_buffer_of_index [simp]: "is_device (buffer_of_index i)"
  by (simp add: buffer_of_index_def)

lemma buffer_of_index_not_host [simp]:
  "buffer_of_index i \<noteq> IntermediateCPUBuffer k" "IntermediateCPUBuffer k \<noteq> buffer_of_index i"
  by (simp_all add: buffer_of_index_def)

lemma length_copy_elements:
  "n \<le> length src \<Longrightarrow> n \<le> length dst \<Longrightarrow> length (copy_elements src n dst) = length dst"
  by (simp add: copy_elements_def)

lemma take_copy_elements: "n \<le> length src \<Longrightarrow> take n (copy_elements src n dst) = take n src"
  by (simp add: copy_elements_def)

lemma frame_fields:
  assumes "frame p q"
  shows "hdr q = hdr p" and "length (m_intermediateCPUBuffers (st q)) = length (m_intermediateCPUBuffers (st p))"
    and "is_device b \<Longrightarrow> num_elements q b = num_elements p b"
    and "is_device b \<Longrightarrow> valid_buffer q b = valid_buffer p b"
  using assms by (simp_all add: frame_def)

text \<open>One iteration of the loop on one rank, given the sum \<open>R\<close> of the current matrix.\<close>

lemma staged_iteration_rank:
  fixes p q :: impl_rank and cur nxt :: buffer
  assumes fr: "frame p q"
    and dc: "is_device cur" and dn: "is_device nxt" and ne: "cur \<noteq> nxt"
    and vc: "valid_buffer q cur"
    and hk: "Suc j < length (m_intermediateCPUBuffers (st q))"
    and cap: "num_elements p cur \<le> length (read_buffer q (IntermediateCPUBuffer j))"
    and capn: "num_elements p nxt \<le> length (read_buffer q (IntermediateCPUBuffer (Suc j)))"
    and lc: "length (read_buffer q cur) = num_elements p cur"
    and ln: "length (read_buffer q nxt) = num_elements p nxt"
    and lR: "length R = num_elements p cur"
  defines "q1 \<equiv> CopyGPUToCPU nxt (IntermediateCPUBuffer (Suc j)) q"
  defines "q2 \<equiv> write_buffer (IntermediateCPUBuffer j)
                   (copy_elements R (num_elements q1 cur) (read_buffer q1 (IntermediateCPUBuffer j))) q1"
  defines "q3 \<equiv> CopyCPUToGPU (IntermediateCPUBuffer j) cur q2"
  shows "frame p q3"
    and "read_buffer q3 cur = R"
    and "\<And>b. is_device b \<Longrightarrow> b \<noteq> cur \<Longrightarrow> read_buffer q3 b = read_buffer q b"
    and "take (num_elements p nxt) (read_buffer q3 (IntermediateCPUBuffer (Suc j))) = read_buffer q nxt"
    and "\<And>k. length (read_buffer q3 (IntermediateCPUBuffer k)) = length (read_buffer q (IntermediateCPUBuffer k))"
    and "take (num_elements q1 cur) (read_buffer q1 (IntermediateCPUBuffer j)) =
           take (num_elements p cur) (read_buffer q (IntermediateCPUBuffer j))"
proof -
  have nq: "num_elements q b = num_elements p b" if "is_device b" for b
    using fr that by (simp add: frame_def)
  have f1: "frame q q1"
    unfolding q1_def CopyGPUToCPU_def by (rule frame_write)
  have f2: "frame q1 q2"
    unfolding q2_def by (rule frame_write)
  have f3: "frame q2 q3"
    unfolding q3_def CopyCPUToGPU_def by (rule frame_write)
  show "frame p q3"
    by (rule frame_trans [OF frame_trans [OF frame_trans [OF fr f1] f2] f3])
  have n1: "num_elements q1 b = num_elements p b" if "is_device b" for b
    using frame_fields(3) [OF f1 that] nq [OF that] by simp
  have n2: "num_elements q2 b = num_elements p b" if "is_device b" for b
    using frame_fields(3) [OF f2 that] n1 [OF that] by simp
  have hj: "j < length (m_intermediateCPUBuffers (st q))"
    using hk by simp
  have r1j: "read_buffer q1 (IntermediateCPUBuffer j) = read_buffer q (IntermediateCPUBuffer j)"
    unfolding q1_def CopyGPUToCPU_def by (simp add: read_write_other)
  have r1d: "read_buffer q1 b = read_buffer q b" if "is_device b" for b
    unfolding q1_def CopyGPUToCPU_def using that by (cases b) (simp_all add: read_write_other)
  have v1: "valid_buffer q1 b = valid_buffer q b" for b
    unfolding q1_def CopyGPUToCPU_def by (rule valid_write)
  have v2: "valid_buffer q2 b = valid_buffer q b" for b
    unfolding q2_def by (simp add: valid_write v1)
  have vj: "valid_buffer q (IntermediateCPUBuffer j)" "valid_buffer q (IntermediateCPUBuffer (Suc j))"
    using hk by (simp_all add: valid_buffer.simps)
  have r2j: "read_buffer q2 (IntermediateCPUBuffer j) =
               copy_elements R (num_elements p cur) (read_buffer q (IntermediateCPUBuffer j))"
    unfolding q2_def by (simp add: read_write_same v1 vj n1 [OF dc] r1j)
  have r2d: "read_buffer q2 b = read_buffer q b" if "is_device b" for b
    unfolding q2_def using that by (cases b) (simp_all add: read_write_other r1d)
  have "read_buffer q3 cur =
          copy_elements (read_buffer q2 (IntermediateCPUBuffer j)) (num_elements p cur) (read_buffer q cur)"
    unfolding q3_def CopyCPUToGPU_def by (simp add: read_write_same v2 vc n2 [OF dc] r2d [OF dc])
  also have "\<dots> = R"
    unfolding r2j using lR lc cap by (simp add: copy_elements_def)
  finally show "read_buffer q3 cur = R" .
  show "read_buffer q3 b = read_buffer q b" if "is_device b" "b \<noteq> cur" for b
    unfolding q3_def CopyCPUToGPU_def using that by (simp add: read_write_other r2d)
  have r1s: "read_buffer q1 (IntermediateCPUBuffer (Suc j)) =
               copy_elements (read_buffer q nxt) (num_elements p nxt)
                 (read_buffer q (IntermediateCPUBuffer (Suc j)))"
    unfolding q1_def CopyGPUToCPU_def by (simp add: read_write_same vj nq [OF dn])
  have r3s: "read_buffer q3 (IntermediateCPUBuffer (Suc j)) = read_buffer q1 (IntermediateCPUBuffer (Suc j))"
    unfolding q3_def CopyCPUToGPU_def q2_def using dc
    by (cases cur) (simp_all add: read_write_other)
  show "take (num_elements p nxt) (read_buffer q3 (IntermediateCPUBuffer (Suc j))) = read_buffer q nxt"
    unfolding r3s r1s using ln by (simp add: copy_elements_def)
  show "length (read_buffer q3 (IntermediateCPUBuffer k)) = length (read_buffer q (IntermediateCPUBuffer k))"
    for k
  proof -
    have a: "length (read_buffer q1 (IntermediateCPUBuffer k)) = length (read_buffer q (IntermediateCPUBuffer k))"
    proof (cases "k = Suc j")
      case True
      then show ?thesis
        unfolding r1s [unfolded True [symmetric]] True
        using ln capn by (simp add: r1s length_copy_elements)
    next
      case False
      then show ?thesis
        unfolding q1_def CopyGPUToCPU_def by (simp add: read_write_other)
    qed
    have b: "length (read_buffer q2 (IntermediateCPUBuffer k)) = length (read_buffer q1 (IntermediateCPUBuffer k))"
    proof (cases "k = j")
      case True
      then show ?thesis
        using lR cap by (simp add: r2j r1j length_copy_elements)
    next
      case False
      then show ?thesis
        unfolding q2_def by (simp add: read_write_other)
    qed
    have c: "read_buffer q3 (IntermediateCPUBuffer k) = read_buffer q2 (IntermediateCPUBuffer k)"
      unfolding q3_def CopyCPUToGPU_def using dc by (cases cur) (simp_all add: read_write_other)
    show ?thesis
      unfolding c b a ..
  qed
  show "take (num_elements q1 cur) (read_buffer q1 (IntermediateCPUBuffer j)) =
           take (num_elements p cur) (read_buffer q (IntermediateCPUBuffer j))"
    by (simp add: n1 [OF dc] r1j)
qed

text \<open>The last iteration on one rank: no further matrix is copied to the host.\<close>

lemma staged_last_iteration_rank:
  fixes p q :: impl_rank and cur :: buffer
  assumes fr: "frame p q"
    and dc: "is_device cur"
    and vc: "valid_buffer q cur"
    and hk: "j < length (m_intermediateCPUBuffers (st q))"
    and cap: "num_elements p cur \<le> length (read_buffer q (IntermediateCPUBuffer j))"
    and lc: "length (read_buffer q cur) = num_elements p cur"
    and lR: "length R = num_elements p cur"
  defines "q2 \<equiv> write_buffer (IntermediateCPUBuffer j)
                   (copy_elements R (num_elements q cur) (read_buffer q (IntermediateCPUBuffer j))) q"
  defines "q3 \<equiv> CopyCPUToGPU (IntermediateCPUBuffer j) cur q2"
  shows "frame p q3"
    and "read_buffer q3 cur = R"
    and "\<And>b. is_device b \<Longrightarrow> b \<noteq> cur \<Longrightarrow> read_buffer q3 b = read_buffer q b"
    and "\<And>k. length (read_buffer q3 (IntermediateCPUBuffer k)) = length (read_buffer q (IntermediateCPUBuffer k))"
proof -
  have nq: "num_elements q b = num_elements p b" if "is_device b" for b
    using fr that by (simp add: frame_def)
  have f2: "frame q q2"
    unfolding q2_def by (rule frame_write)
  have f3: "frame q2 q3"
    unfolding q3_def CopyCPUToGPU_def by (rule frame_write)
  show "frame p q3"
    by (rule frame_trans [OF frame_trans [OF fr f2] f3])
  have n2: "num_elements q2 b = num_elements p b" if "is_device b" for b
    using frame_fields(3) [OF f2 that] nq [OF that] by simp
  have v2: "valid_buffer q2 b = valid_buffer q b" for b
    unfolding q2_def by (simp add: valid_write)
  have vj: "valid_buffer q (IntermediateCPUBuffer j)"
    using hk by (simp add: valid_buffer.simps)
  have r2j: "read_buffer q2 (IntermediateCPUBuffer j) =
               copy_elements R (num_elements p cur) (read_buffer q (IntermediateCPUBuffer j))"
    unfolding q2_def by (simp add: read_write_same vj nq [OF dc])
  have r2d: "read_buffer q2 b = read_buffer q b" if "is_device b" for b
    unfolding q2_def using that by (cases b) (simp_all add: read_write_other)
  have "read_buffer q3 cur =
          copy_elements (read_buffer q2 (IntermediateCPUBuffer j)) (num_elements p cur) (read_buffer q cur)"
    unfolding q3_def CopyCPUToGPU_def by (simp add: read_write_same v2 vc n2 [OF dc] r2d [OF dc])
  also have "\<dots> = R"
    unfolding r2j using lR lc cap by (simp add: copy_elements_def)
  finally show "read_buffer q3 cur = R" .
  show "read_buffer q3 b = read_buffer q b" if "is_device b" "b \<noteq> cur" for b
    unfolding q3_def CopyCPUToGPU_def using that by (simp add: read_write_other r2d)
  show "length (read_buffer q3 (IntermediateCPUBuffer k)) = length (read_buffer q (IntermediateCPUBuffer k))"
    for k
  proof -
    have b: "length (read_buffer q2 (IntermediateCPUBuffer k)) = length (read_buffer q (IntermediateCPUBuffer k))"
    proof (cases "k = j")
      case True
      then show ?thesis
        using lR cap by (simp add: r2j length_copy_elements)
    next
      case False
      then show ?thesis
        unfolding q2_def by (simp add: read_write_other)
    qed
    have c: "read_buffer q3 (IntermediateCPUBuffer k) = read_buffer q2 (IntermediateCPUBuffer k)"
      unfolding q3_def CopyCPUToGPU_def using dc by (cases cur) (simp_all add: read_write_other)
    show ?thesis
      unfolding c b ..
  qed
qed

lemma staged_pre_facts:
  assumes "staged_pre L w" and "j < length L" and "r < length w"
  shows "valid_buffer (w ! r) (buffer_of_index (L ! j))"
    and "length (read_buffer (w ! r) (buffer_of_index (L ! j))) =
           num_elements (w ! r) (buffer_of_index (L ! j))"
    and "num_elements (hd w) (buffer_of_index (L ! j)) = num_elements (w ! r) (buffer_of_index (L ! j))"
    and "length L \<le> length (m_intermediateCPUBuffers (st (w ! r)))"
    and "buffer_of_index (L ! j) \<notin> (\<lambda>k. buffer_of_index (L ! k)) ` {0 ..< j}"
    and "Suc j < length L \<Longrightarrow> buffer_of_index (L ! j) \<noteq> buffer_of_index (L ! Suc j)"
    and "Suc j < length L \<Longrightarrow> Gradient (L ! Suc j) = buffer_of_index (L ! Suc j)"
proof -
  from assms(3) have m: "w ! r \<in> set w" by simp
  from assms(1,2) have u: "uniform_buffer w (buffer_of_index (L ! j))"
    by (simp add: staged_pre_def)
  from u m show "valid_buffer (w ! r) (buffer_of_index (L ! j))"
    and "length (read_buffer (w ! r) (buffer_of_index (L ! j))) =
           num_elements (w ! r) (buffer_of_index (L ! j))"
    unfolding uniform_buffer_def by blast+
  from u m have "num_elements (w ! r) (buffer_of_index (L ! j)) = num_elements (hd w) (buffer_of_index (L ! j))"
    unfolding uniform_buffer_def by blast
  then show "num_elements (hd w) (buffer_of_index (L ! j)) = num_elements (w ! r) (buffer_of_index (L ! j))"
    by (rule sym)
  from assms(1) m show "length L \<le> length (m_intermediateCPUBuffers (st (w ! r)))"
    unfolding staged_pre_def by blast
  from assms(1) have d: "distinct (map buffer_of_index L)"
    by (simp add: staged_pre_def)
  show "buffer_of_index (L ! j) \<notin> (\<lambda>k. buffer_of_index (L ! k)) ` {0 ..< j}"
  proof
    assume "buffer_of_index (L ! j) \<in> (\<lambda>k. buffer_of_index (L ! k)) ` {0 ..< j}"
    then obtain k where k: "k < j" "buffer_of_index (L ! j) = buffer_of_index (L ! k)"
      by auto
    then have e: "map buffer_of_index L ! j = map buffer_of_index L ! k"
      using assms(2) by simp
    have "j = k"
      using d e k(1) assms(2) nth_eq_iff_index_eq [of "map buffer_of_index L" j k] by simp
    with k(1) show False
      by simp
  qed
  show "buffer_of_index (L ! j) \<noteq> buffer_of_index (L ! Suc j)" if "Suc j < length L"
  proof
    assume "buffer_of_index (L ! j) = buffer_of_index (L ! Suc j)"
    then have e: "map buffer_of_index L ! j = map buffer_of_index L ! Suc j"
      using that by simp
    have "j = Suc j"
      using d e that nth_eq_iff_index_eq [of "map buffer_of_index L" j "Suc j"] by simp
    then show False
      by simp
  qed
  show "Gradient (L ! Suc j) = buffer_of_index (L ! Suc j)" if "Suc j < length L"
  proof -
    from assms(1) have "NONE \<notin> set (tl L)" and "L \<noteq> []"
      by (simp_all add: staged_pre_def)
    moreover have "L ! Suc j = tl L ! j"
      using that by (simp add: nth_tl)
    moreover have "j < length (tl L)"
      using that by simp
    ultimately have "L ! Suc j \<noteq> NONE"
      by (metis nth_mem)
    then show ?thesis
      by (simp add: buffer_of_index_def)
  qed
qed

text \<open>One iteration of the loop on all ranks keeps the invariant.\<close>

lemma staged_step:
  assumes pre: "staged_pre L w" and inv: "staged_inv L w (Suc j) x" and j: "j < length L"
  defines "cur \<equiv> buffer_of_index (L ! j)"
  defines "x1 \<equiv> (if Suc j < length L
                  then map (CopyGPUToCPU (buffer_of_index (L ! Suc j)) (IntermediateCPUBuffer (Suc j))) x
                  else x)"
  defines "x3 \<equiv> map (CopyCPUToGPU (IntermediateCPUBuffer j) cur)
                   (AllReduce MPI_SUM (IntermediateCPUBuffer j) cur x1)"
  shows "staged_inv L w (Suc (Suc j)) x3"
proof -
  let ?B = "\<lambda>k. buffer_of_index (L ! k)"
  let ?S = "?B ` {0 ..< j}"
  let ?nxt = "?B (Suc j)"
  define R where "R = reduce_buffers MPI_SUM (map (\<lambda>p. read_buffer p cur) w)"
  from inv have red: "reduced_on ?S w x"
    by (simp add: staged_inv_def)
  from inv have cap: "num_elements (w ! r) (?B k) \<le> length (read_buffer (x ! r) (IntermediateCPUBuffer k))"
    if "r < length w" "k < length L" for r k
    using that by (simp add: staged_inv_def)
  from inv j have host: "take (num_elements (w ! r) cur) (read_buffer (x ! r) (IntermediateCPUBuffer j)) =
                           read_buffer (w ! r) cur"
    if "r < length w" for r
    using that by (simp add: staged_inv_def cur_def)
  from red have len: "length x = length w"
    and fr: "\<And>r. r < length w \<Longrightarrow> frame (w ! r) (x ! r)"
    and rd: "\<And>r b. r < length w \<Longrightarrow> is_device b \<Longrightarrow>
               read_buffer (x ! r) b =
                 (if b \<in> ?S then reduce_buffers MPI_SUM (map (\<lambda>p. read_buffer p b) w)
                  else read_buffer (w ! r) b)"
    by (simp_all add: reduced_on_def)
  have ne: "w \<noteq> []"
    using pre by (simp add: staged_pre_def)
  have uc: "uniform_buffer w cur"
    using pre j by (simp add: staged_pre_def cur_def)
  have dc: "is_device cur"
    by (simp add: cur_def)
  note pf = staged_pre_facts [OF pre]
  have r0: "0 < length w"
    using ne by simp
  have cS: "cur \<notin> ?S"
    unfolding cur_def by (rule pf(5) [OF j r0])
  have rc: "read_buffer (x ! r) cur = read_buffer (w ! r) cur" if "r < length w" for r
    using rd [OF that dc] cS by simp
  have lR: "length R = num_elements (w ! r) cur" if "r < length w" for r
    using uniform_length_reduce [OF ne uc, of MPI_SUM] pf(3) [OF j that] by (simp add: R_def cur_def)
  have vq: "valid_buffer (x ! r) cur" if "r < length w" for r
    using frame_fields(4) [OF fr [OF that] dc] pf(1) [OF j that] by (simp add: cur_def)
  have hl: "length L \<le> length (m_intermediateCPUBuffers (st (x ! r)))" if "r < length w" for r
    using frame_fields(2) [OF fr [OF that]] pf(4) [OF j that] by simp
  have lc: "length (read_buffer (x ! r) cur) = num_elements (w ! r) cur" if "r < length w" for r
    using rc [OF that] pf(2) [OF j that] by (simp add: cur_def)
  have l1: "length x1 = length w"
    by (simp add: x1_def len)
  have key: "take (num_elements (x1 ! r) cur) (read_buffer (x1 ! r) (IntermediateCPUBuffer j)) =
               read_buffer (w ! r) cur" if r: "r < length w" for r
  proof (cases "Suc j < length L")
    case True
    have nS: "?nxt \<notin> ?S"
    proof
      assume "?nxt \<in> ?S"
      then have "?nxt \<in> ?B ` {0 ..< Suc j}"
        by auto
      with pf(5) [OF True r0] show False
        by simp
    qed
    have rn: "read_buffer (x ! r) ?nxt = read_buffer (w ! r) ?nxt"
      using rd [OF r, of ?nxt] nS by simp
    have x1r: "x1 ! r = CopyGPUToCPU ?nxt (IntermediateCPUBuffer (Suc j)) (x ! r)"
      using True r len by (simp add: x1_def)
    have "take (num_elements (x1 ! r) cur) (read_buffer (x1 ! r) (IntermediateCPUBuffer j)) =
            take (num_elements (w ! r) cur) (read_buffer (x ! r) (IntermediateCPUBuffer j))"
      unfolding x1r
    proof (rule staged_iteration_rank(6) [where R = R])
      show "frame (w ! r) (x ! r)" by (rule fr [OF r])
      show "is_device cur" by (rule dc)
      show "is_device ?nxt" by simp
      show "cur \<noteq> ?nxt" unfolding cur_def by (rule pf(6) [OF j r True])
      show "valid_buffer (x ! r) cur" by (rule vq [OF r])
      show "Suc j < length (m_intermediateCPUBuffers (st (x ! r)))"
        using hl [OF r] True by simp
      show "num_elements (w ! r) cur \<le> length (read_buffer (x ! r) (IntermediateCPUBuffer j))"
        unfolding cur_def by (rule cap [OF r j])
      show "num_elements (w ! r) ?nxt \<le> length (read_buffer (x ! r) (IntermediateCPUBuffer (Suc j)))"
        by (rule cap [OF r True])
      show "length (read_buffer (x ! r) cur) = num_elements (w ! r) cur" by (rule lc [OF r])
      show "length (read_buffer (x ! r) ?nxt) = num_elements (w ! r) ?nxt"
        unfolding rn by (rule pf(2) [OF True r])
      show "length R = num_elements (w ! r) cur" by (rule lR [OF r])
    qed
    then show ?thesis
      using host [OF r] by simp
  next
    case False
    then have "x1 ! r = x ! r"
      by (simp add: x1_def)
    then show ?thesis
      using host [OF r] frame_fields(3) [OF fr [OF r] dc] by simp
  qed
  have R': "reduce_buffers MPI_SUM (map (\<lambda>p. take (num_elements p cur) (read_buffer p (IntermediateCPUBuffer j))) x1) = R"
    unfolding R_def
    by (rule arg_cong [where f = "reduce_buffers MPI_SUM"], rule map_eq_nth [OF l1]) (rule key)
  have x3r: "x3 ! r = CopyCPUToGPU (IntermediateCPUBuffer j) cur
               (write_buffer (IntermediateCPUBuffer j)
                  (copy_elements R (num_elements (x1 ! r) cur)
                     (read_buffer (x1 ! r) (IntermediateCPUBuffer j))) (x1 ! r))"
    if "r < length w" for r
    unfolding x3_def AllReduce_def Let_def R' using l1 that by simp
  have l3: "length x3 = length w"
    by (simp add: x3_def AllReduce_def Let_def l1)
  have main: "frame (w ! r) (x3 ! r) \<and> read_buffer (x3 ! r) cur = R \<and>
              (\<forall>b. is_device b \<longrightarrow> b \<noteq> cur \<longrightarrow> read_buffer (x3 ! r) b = read_buffer (x ! r) b) \<and>
              (\<forall>k. length (read_buffer (x3 ! r) (IntermediateCPUBuffer k)) =
                     length (read_buffer (x ! r) (IntermediateCPUBuffer k))) \<and>
              (Suc j < length L \<longrightarrow>
                 take (num_elements (w ! r) ?nxt) (read_buffer (x3 ! r) (IntermediateCPUBuffer (Suc j))) =
                   read_buffer (w ! r) ?nxt)"
    if r: "r < length w" for r
  proof (cases "Suc j < length L")
    case True
    have nS: "?nxt \<notin> ?S"
    proof
      assume "?nxt \<in> ?S"
      then have "?nxt \<in> ?B ` {0 ..< Suc j}"
        by auto
      with pf(5) [OF True r0] show False
        by simp
    qed
    have rn: "read_buffer (x ! r) ?nxt = read_buffer (w ! r) ?nxt"
      using rd [OF r, of ?nxt] nS by simp
    have x1r: "x1 ! r = CopyGPUToCPU ?nxt (IntermediateCPUBuffer (Suc j)) (x ! r)"
      using True r len by (simp add: x1_def)
    have a1: "frame (w ! r) (x ! r)" by (rule fr [OF r])
    have a2: "is_device ?nxt" by simp
    have a3: "cur \<noteq> ?nxt" unfolding cur_def by (rule pf(6) [OF j r True])
    have a4: "Suc j < length (m_intermediateCPUBuffers (st (x ! r)))"
      using hl [OF r] True by simp
    have a5: "num_elements (w ! r) cur \<le> length (read_buffer (x ! r) (IntermediateCPUBuffer j))"
      unfolding cur_def by (rule cap [OF r j])
    have a6: "num_elements (w ! r) ?nxt \<le> length (read_buffer (x ! r) (IntermediateCPUBuffer (Suc j)))"
      by (rule cap [OF r True])
    have a7: "length (read_buffer (x ! r) ?nxt) = num_elements (w ! r) ?nxt"
      unfolding rn by (rule pf(2) [OF True r])
    note it = staged_iteration_rank [OF a1 dc a2 a3 vq [OF r] a4 a5 a6 lc [OF r] a7 lR [OF r]]
    show ?thesis
      unfolding x3r [OF r] x1r rn [symmetric]
      by (intro conjI allI impI) (rule it(1) it(2) it(3) it(4) it(5); assumption?)+
  next
    case False
    have x1r: "x1 ! r = x ! r"
      using False by (simp add: x1_def)
    have a4: "j < length (m_intermediateCPUBuffers (st (x ! r)))"
      using hl [OF r] j by simp
    have a5: "num_elements (w ! r) cur \<le> length (read_buffer (x ! r) (IntermediateCPUBuffer j))"
      unfolding cur_def by (rule cap [OF r j])
    note it = staged_last_iteration_rank [OF fr [OF r] dc vq [OF r] a4 a5 lc [OF r] lR [OF r]]
    show ?thesis
      unfolding x3r [OF r] x1r using False it by simp
  qed
  have "reduced_on (?B ` {0 ..< Suc j}) w x3"
    unfolding reduced_on_def
  proof (intro conjI allI impI)
    show "length x3 = length w" by (rule l3)
  next
    fix r assume r: "r < length w"
    from main [OF r] show "frame (w ! r) (x3 ! r)" by simp
  next
    fix r b assume r: "r < length w" and b: "is_device b"
    show "read_buffer (x3 ! r) b =
            (if b \<in> ?B ` {0 ..< Suc j} then reduce_buffers MPI_SUM (map (\<lambda>p. read_buffer p b) w)
             else read_buffer (w ! r) b)"
    proof (cases "b = cur")
      case True
      have "cur \<in> ?B ` {0 ..< Suc j}"
        unfolding cur_def by (rule image_eqI [where x = j]) simp_all
      then show ?thesis
        using main [OF r] True by (simp add: R_def)
    next
      case False
      have e: "(b \<in> ?B ` {0 ..< Suc j}) = (b \<in> ?S)"
        using False by (auto simp: cur_def less_Suc_eq)
      have "read_buffer (x3 ! r) b = read_buffer (x ! r) b"
        using main [OF r] b False by simp
      then show ?thesis
        unfolding e using rd [OF r b] by simp
    qed
  qed
  moreover have "num_elements (w ! r) (?B k) \<le> length (read_buffer (x3 ! r) (IntermediateCPUBuffer k))"
    if "r < length w" "k < length L" for r k
    using main [OF that(1)] cap [OF that] by simp
  moreover have "take (num_elements (w ! r) ?nxt) (read_buffer (x3 ! r) (IntermediateCPUBuffer (Suc j))) =
                   read_buffer (w ! r) ?nxt"
    if "r < length w" "Suc j < length L" for r
    using main [OF that(1)] that(2) by simp
  ultimately show ?thesis
    by (simp add: staged_inv_def)
qed

text \<open>The loop, started where the invariant holds, reduces every entry of the list.\<close>

lemma staged_loop_reduced:
  assumes pre: "staged_pre L w"
  shows "staged_inv L w (Suc j) x \<Longrightarrow> j \<le> length L \<Longrightarrow> (j < length L \<Longrightarrow> cur = L ! j) \<Longrightarrow>
         reduced_on ((\<lambda>k. buffer_of_index (L ! k)) ` {0 ..< length L}) w
           (fst (staged_loop L (Suc j) cur nxt cb (Suc j) j x))"
proof (induction "length L - j" arbitrary: j x cur nxt cb)
  case 0
  then have "j = length L"
    by simp
  then have "staged_loop L (Suc j) cur nxt cb (Suc j) j x = (x, j)"
    by (subst staged_loop.simps) simp
  moreover have "reduced_on ((\<lambda>k. buffer_of_index (L ! k)) ` {0 ..< length L}) w x"
    using "0.prems"(1) \<open>j = length L\<close> by (simp add: staged_inv_def)
  ultimately show ?case
    by simp
next
  case (Suc n)
  let ?B = "\<lambda>k. buffer_of_index (L ! k)"
  from Suc.hyps(2) have j: "j < length L"
    by simp
  have c: "cur = L ! j"
    using Suc.prems(3) j by simp
  have r0: "0 < length w"
    using pre by (simp add: staged_pre_def)
  define x3 where "x3 = map (CopyCPUToGPU (IntermediateCPUBuffer j) (?B j))
     (AllReduce MPI_SUM (IntermediateCPUBuffer j) (?B j)
        (if Suc j < length L
         then map (CopyGPUToCPU (?B (Suc j)) (IntermediateCPUBuffer (Suc j))) x else x))"
  have inv3: "staged_inv L w (Suc (Suc j)) x3"
    unfolding x3_def by (rule staged_step [OF pre Suc.prems(1) j])
  have "\<exists>nxt' cb'. staged_loop L (Suc j) cur nxt cb (Suc j) j x =
           staged_loop L (Suc (Suc j)) nxt' nxt' cb' (Suc (Suc j)) (Suc j) x3 \<and>
           (Suc j < length L \<longrightarrow> nxt' = L ! Suc j)"
  proof (cases "Suc j < length L")
    case True
    from staged_pre_facts(7) [OF pre j r0 True]
    have g: "Gradient (L ! Suc j) = ?B (Suc j)" .
    then have n: "L ! Suc j \<noteq> NONE"
      by (simp add: buffer_of_index_def split: if_splits)
    have "staged_loop L (Suc j) cur nxt cb (Suc j) j x =
            staged_loop L (Suc (Suc j)) (L ! Suc j) (L ! Suc j) (?B (Suc j)) (Suc (Suc j)) (Suc j) x3"
      using True n j by (subst staged_loop.simps) (simp add: Let_def x3_def c g)
    with True show ?thesis
      by blast
  next
    case False
    have "staged_loop L (Suc j) cur nxt cb (Suc j) j x =
            staged_loop L (Suc (Suc j)) nxt nxt cb (Suc (Suc j)) (Suc j) x3"
      using False j by (subst staged_loop.simps) (simp add: Let_def x3_def c)
    with False show ?thesis
      by blast
  qed
  then obtain nxt' cb' where
    s: "staged_loop L (Suc j) cur nxt cb (Suc j) j x =
          staged_loop L (Suc (Suc j)) nxt' nxt' cb' (Suc (Suc j)) (Suc j) x3"
    and n: "Suc j < length L \<Longrightarrow> nxt' = L ! Suc j"
    by blast
  have "reduced_on (?B ` {0 ..< length L}) w
          (fst (staged_loop L (Suc (Suc j)) nxt' nxt' cb' (Suc (Suc j)) (Suc j) x3))"
  proof (rule Suc.hyps(1))
    show "n = length L - Suc j"
      using Suc.hyps(2) by simp
    show "staged_inv L w (Suc (Suc j)) x3"
      by (rule inv3)
    show "Suc j \<le> length L"
      using j by simp
    show "nxt' = L ! Suc j" if "Suc j < length L"
      using that by (rule n)
  qed
  then show ?case
    unfolding s .
qed

text \<open>The first copy to the host, on one rank.\<close>

lemma first_copy_rank:
  assumes dv: "is_device b"
    and hk: "k < length (m_intermediateCPUBuffers (st p))"
    and lb: "length (read_buffer p b) = num_elements p b"
    and cap: "num_elements p b \<le> length (read_buffer p (IntermediateCPUBuffer k))"
  defines "q \<equiv> CopyGPUToCPU b (IntermediateCPUBuffer k) p"
  shows "frame p q"
    and "\<And>c. is_device c \<Longrightarrow> read_buffer q c = read_buffer p c"
    and "\<And>i. length (read_buffer q (IntermediateCPUBuffer i)) = length (read_buffer p (IntermediateCPUBuffer i))"
    and "take (num_elements p b) (read_buffer q (IntermediateCPUBuffer k)) = read_buffer p b"
proof -
  show "frame p q"
    unfolding q_def CopyGPUToCPU_def by (rule frame_write)
  show "read_buffer q c = read_buffer p c" if "is_device c" for c
    unfolding q_def CopyGPUToCPU_def using that by (cases c) (simp_all add: read_write_other)
  have v: "valid_buffer p (IntermediateCPUBuffer k)"
    using hk by (simp add: valid_buffer.simps)
  have rk: "read_buffer q (IntermediateCPUBuffer k) =
              copy_elements (read_buffer p b) (num_elements p b) (read_buffer p (IntermediateCPUBuffer k))"
    unfolding q_def CopyGPUToCPU_def by (simp add: read_write_same v)
  show "length (read_buffer q (IntermediateCPUBuffer i)) = length (read_buffer p (IntermediateCPUBuffer i))"
    for i
  proof (cases "i = k")
    case True
    then show ?thesis
      using lb cap by (simp add: rk length_copy_elements)
  next
    case False
    then show ?thesis
      unfolding q_def CopyGPUToCPU_def by (simp add: read_write_other)
  qed
  show "take (num_elements p b) (read_buffer q (IntermediateCPUBuffer k)) = read_buffer p b"
    using lb by (simp add: rk take_copy_elements)
qed

text \<open>
  The staged pipeline: every rank ends with the sum, over the ranks, of every matrix of
  the list, and with its other matrices as they were.
\<close>

lemma staged_pipeline_reduced:
  assumes pre: "staged_pre L w"
    and cap: "\<And>r k. r < length w \<Longrightarrow> k < length L \<Longrightarrow>
                num_elements (w ! r) (buffer_of_index (L ! k))
                  \<le> length (read_buffer (w ! r) (IntermediateCPUBuffer k))"
  shows "reduced_on (buffer_of_index ` set L) w (fst (staged_pipeline L w))"
proof -
  let ?B = "\<lambda>k. buffer_of_index (L ! k)"
  define w0 where "w0 = map (CopyGPUToCPU (?B 0) (IntermediateCPUBuffer 0)) w"
  have L: "0 < length L" and r0: "0 < length w"
    using pre by (simp_all add: staged_pre_def)
  note pf = staged_pre_facts [OF pre L]
  have fc: "frame (w ! r) (w0 ! r) \<and>
            (\<forall>c. is_device c \<longrightarrow> read_buffer (w0 ! r) c = read_buffer (w ! r) c) \<and>
            (\<forall>i. length (read_buffer (w0 ! r) (IntermediateCPUBuffer i)) =
                   length (read_buffer (w ! r) (IntermediateCPUBuffer i))) \<and>
            take (num_elements (w ! r) (?B 0)) (read_buffer (w0 ! r) (IntermediateCPUBuffer 0)) =
              read_buffer (w ! r) (?B 0)"
    if r: "r < length w" for r
  proof -
    have h: "0 < length (m_intermediateCPUBuffers (st (w ! r)))"
      using pf(4) [OF r] L by (cases L) auto
    have e: "w0 ! r = CopyGPUToCPU (?B 0) (IntermediateCPUBuffer 0) (w ! r)"
      using r by (simp add: w0_def)
    note f = first_copy_rank [OF is_device_buffer_of_index h pf(2) [OF r] cap [OF r L]]
    show ?thesis
      unfolding e by (intro conjI allI impI) (rule f(1) f(2) f(3) f(4); assumption?)+
  qed
  have inv: "staged_inv L w (Suc 0) w0"
    unfolding staged_inv_def reduced_on_def
  proof (intro conjI allI impI)
    show "length w0 = length w"
      by (simp add: w0_def)
  next
    fix r assume "r < length w"
    from fc [OF this] show "frame (w ! r) (w0 ! r)"
      by simp
  next
    fix r b assume "r < length w" "is_device b"
    with fc [of r]
    show "read_buffer (w0 ! r) b =
            (if b \<in> ?B ` {0 ..< Suc 0 - 1} then reduce_buffers MPI_SUM (map (\<lambda>p. read_buffer p b) w)
             else read_buffer (w ! r) b)"
      by simp
  next
    fix r k assume "r < length w" "k < length L"
    with fc [of r] cap [of r k]
    show "num_elements (w ! r) (?B k) \<le> length (read_buffer (w0 ! r) (IntermediateCPUBuffer k))"
      by simp
  next
    fix r assume "r < length w"
    from fc [OF this]
    show "take (num_elements (w ! r) (?B (Suc 0 - 1))) (read_buffer (w0 ! r) (IntermediateCPUBuffer (Suc 0 - 1))) =
            read_buffer (w ! r) (?B (Suc 0 - 1))"
      by simp
  qed
  have cb: "(if L ! 0 \<noteq> NONE then Gradient (L ! 0) else AggregationBuffer) = ?B 0"
    by (simp add: buffer_of_index_def)
  have p: "staged_pipeline L w = staged_loop L (Suc 0) (L ! 0) 0 (?B 0) (Suc 0) 0 w0"
    unfolding staged_pipeline_def Let_def cb w0_def by simp
  have "set L = (\<lambda>k. L ! k) ` {0 ..< length L}"
    by (auto simp: set_conv_nth)
  then have s: "buffer_of_index ` set L = ?B ` {0 ..< length L}"
    by (simp add: image_image)
  show ?thesis
    unfolding p s by (rule staged_loop_reduced [OF pre inv]) simp_all
qed

section \<open>Results on packing and unpacking\<close>

lemma reduce_buffers_append:
  assumes "w \<noteq> []" and "\<forall>p \<in> set w. length (A p) = n"
  shows "reduce_buffers op (map (\<lambda>p. A p @ B p) w) =
           reduce_buffers op (map A w) @ reduce_buffers op (map B w)"
  using assms
proof (induction w rule: list_nonempty_induct)
  case (single p)
  then show ?case by simp
next
  case (cons p w)
  obtain q w' where w: "w = q # w'"
    using cons.hyps(1) by (cases w) auto
  have l: "length (reduce_buffers op (map A w)) = n"
    using cons.prems cons.hyps(1) by (intro length_reduce_buffers) auto
  have ih: "reduce_buffers op (map (\<lambda>p. A p @ B p) w) =
              reduce_buffers op (map A w) @ reduce_buffers op (map B w)"
    using cons.prems by (intro cons.IH) simp
  have "reduce_buffers op (map (\<lambda>p. A p @ B p) (p # w)) =
          map2 (apply_op op) (A p @ B p) (reduce_buffers op (map (\<lambda>p. A p @ B p) w))"
    by (simp add: w)
  also have "\<dots> = map2 (apply_op op) (A p @ B p)
                      (reduce_buffers op (map A w) @ reduce_buffers op (map B w))"
    unfolding ih ..
  also have "\<dots> = map2 (apply_op op) (A p) (reduce_buffers op (map A w)) @
                    map2 (apply_op op) (B p) (reduce_buffers op (map B w))"
    using l cons.prems by simp
  also have "\<dots> = reduce_buffers op (map A (p # w)) @ reduce_buffers op (map B (p # w))"
    by (simp add: w)
  finally show ?case .
qed

lemma reduce_buffers_concat:
  assumes "w \<noteq> []" and "\<forall>p \<in> set w. \<forall>i \<in> set P. length (G p i) = n i"
  shows "reduce_buffers op (map (\<lambda>p. concat (map (G p) P) @ B p) w) =
           concat (map (\<lambda>i. reduce_buffers op (map (\<lambda>p. G p i) w)) P) @
           reduce_buffers op (map B w)"
  using assms(2)
proof (induction P arbitrary: B)
  case Nil
  then show ?case by simp
next
  case (Cons i P)
  have "reduce_buffers op (map (\<lambda>p. concat (map (G p) (i # P)) @ B p) w) =
          reduce_buffers op (map (\<lambda>p. G p i @ (concat (map (G p) P) @ B p)) w)"
    by simp
  also have "\<dots> = reduce_buffers op (map (\<lambda>p. G p i) w) @
                    reduce_buffers op (map (\<lambda>p. concat (map (G p) P) @ B p) w)"
    using Cons.prems by (intro reduce_buffers_append [OF assms(1), where n = "n i"]) simp
  also have "reduce_buffers op (map (\<lambda>p. concat (map (G p) P) @ B p) w) =
               concat (map (\<lambda>i. reduce_buffers op (map (\<lambda>p. G p i) w)) P) @
               reduce_buffers op (map B w)"
    using Cons.prems by (intro Cons.IH) simp
  finally show ?case
    by simp
qed

text \<open>The sum, element by element.\<close>

lemma reduce_buffers_sum_nth:
  assumes "vs \<noteq> []" and "\<forall>v \<in> set vs. length v = n" and "k < n"
  shows "reduce_buffers MPI_SUM vs ! k = sum_list (map (\<lambda>v. v ! k) vs)"
  using assms
proof (induction vs rule: list_nonempty_induct)
  case (single v)
  then show ?case by simp
next
  case (cons v vs)
  obtain u us where vs: "vs = u # us"
    using cons.hyps(1) by (cases vs) auto
  have l: "length (reduce_buffers MPI_SUM vs) = n"
    using cons.prems cons.hyps(1) by (intro length_reduce_buffers) auto
  have ih: "reduce_buffers MPI_SUM vs ! k = sum_list (map (\<lambda>v. v ! k) vs)"
    using cons.prems by (intro cons.IH) simp_all
  have "reduce_buffers MPI_SUM (v # vs) = map2 (apply_op MPI_SUM) v (reduce_buffers MPI_SUM vs)"
    unfolding vs by (rule reduce_buffers.simps(3))
  moreover have "map2 (apply_op MPI_SUM) v (reduce_buffers MPI_SUM vs) ! k =
                   v ! k + reduce_buffers MPI_SUM vs ! k"
    using l cons.prems by simp
  ultimately show ?case
    using ih by simp
qed

text \<open>The packed buffer after the packing loop.\<close>

lemma pack_gradients_Data:
  assumes "off + sum_list (map (\<lambda>i. GetNumElements (gs ! i)) P) \<le> length (Data buf)"
    and "\<forall>i \<in> set P. length (Data (gs ! i)) = GetNumElements (gs ! i)"
  shows "Data (pack_gradients P gs off buf) =
           take off (Data buf) @ concat (map (\<lambda>i. Data (gs ! i)) P) @
           drop (off + sum_list (map (\<lambda>i. GetNumElements (gs ! i)) P)) (Data buf)"
  using assms
proof (induction P arbitrary: off buf)
  case Nil
  then show ?case by simp
next
  case (Cons i P)
  let ?n = "GetNumElements (gs ! i)"
  let ?S = "sum_list (map (\<lambda>i. GetNumElements (gs ! i)) P)"
  let ?D = "assign_columns off (Data (gs ! i)) (Data buf)"
  have n: "length (Data (gs ! i)) = ?n"
    using Cons.prems(2) by simp
  have o: "off + ?n + ?S \<le> length (Data buf)"
    using Cons.prems(1) by simp
  have lD: "length ?D = length (Data buf)"
    using o n by (simp add: assign_columns_def)
  have tD: "take (off + ?n) ?D = take off (Data buf) @ Data (gs ! i)"
    using o n by (simp add: assign_columns_def)
  have dD: "drop (off + ?n + ?S) ?D = drop (off + ?n + ?S) (Data buf)"
    using o n by (simp add: assign_columns_def ac_simps)
  have "Data (pack_gradients P gs (off + ?n) (buf\<lparr>Data := ?D\<rparr>)) =
          take (off + ?n) ?D @ concat (map (\<lambda>i. Data (gs ! i)) P) @ drop (off + ?n + ?S) ?D"
    using Cons.IH [of "off + ?n" "buf\<lparr>Data := ?D\<rparr>"] Cons.prems(2) o lD by simp
  then show ?case
    unfolding tD dD by (simp add: add.assoc)
qed

lemma pack_gradients_shape:
  "NumRows (pack_gradients P gs off buf) = NumRows buf \<and>
   NumCols (pack_gradients P gs off buf) = NumCols buf"
  by (induction P arbitrary: off buf) simp_all

text \<open>The gradients after the unpacking loop.\<close>

lemma unpack_gradients_map:
  assumes "distinct P"
    and "\<forall>i \<in> set P. i < length gs \<and> length (F i) = GetNumElements (gs ! i)"
    and "Data buf = pre @ concat (map F P) @ post" and "length pre = off"
  shows "unpack_gradients P off buf gs =
           map (\<lambda>i. if i \<in> set P then (gs ! i)\<lparr>Data := F i\<rparr> else gs ! i) [0 ..< length gs]"
  using assms
proof (induction P arbitrary: off pre gs)
  case Nil
  then show ?case
    by (simp add: map_nth)
next
  case (Cons i P)
  let ?n = "GetNumElements (gs ! i)"
  let ?gs = "gs[i := (gs ! i)\<lparr>Data := column_slice off ?n (Data buf)\<rparr>]"
  have i: "i < length gs" and n: "length (F i) = ?n" and ni: "i \<notin> set P"
    using Cons.prems(1,2) by simp_all
  have sl: "column_slice off ?n (Data buf) = F i"
    using Cons.prems(3,4) n by (simp add: column_slice_def)
  have g: "?gs ! j = gs ! j" if "j \<noteq> i" for j
    using that by simp
  have "unpack_gradients P (off + ?n) buf ?gs =
          map (\<lambda>j. if j \<in> set P then (?gs ! j)\<lparr>Data := F j\<rparr> else ?gs ! j) [0 ..< length ?gs]"
  proof (rule Cons.IH [where pre = "pre @ F i"])
    show "distinct P"
      using Cons.prems(1) by simp
    show "\<forall>j \<in> set P. j < length ?gs \<and> length (F j) = GetNumElements (?gs ! j)"
    proof
      fix j assume j: "j \<in> set P"
      with ni have "j \<noteq> i" by auto
      with Cons.prems(2) j show "j < length ?gs \<and> length (F j) = GetNumElements (?gs ! j)"
        by simp
    qed
    show "Data buf = (pre @ F i) @ concat (map F P) @ post"
      using Cons.prems(3) by simp
    show "length (pre @ F i) = off + ?n"
      using Cons.prems(4) n by simp
  qed
  also have "\<dots> = map (\<lambda>j. if j \<in> set (i # P) then (gs ! j)\<lparr>Data := F j\<rparr> else gs ! j) [0 ..< length gs]"
  proof (rule nth_equalityI)
    show "length (map (\<lambda>j. if j \<in> set P then (?gs ! j)\<lparr>Data := F j\<rparr> else ?gs ! j) [0 ..< length ?gs]) =
            length (map (\<lambda>j. if j \<in> set (i # P) then (gs ! j)\<lparr>Data := F j\<rparr> else gs ! j) [0 ..< length gs])"
      by simp
  next
    fix j
    assume "j < length (map (\<lambda>j. if j \<in> set P then (?gs ! j)\<lparr>Data := F j\<rparr> else ?gs ! j) [0 ..< length ?gs])"
    then have j: "j < length gs"
      by simp
    show "map (\<lambda>j. if j \<in> set P then (?gs ! j)\<lparr>Data := F j\<rparr> else ?gs ! j) [0 ..< length ?gs] ! j =
            map (\<lambda>j. if j \<in> set (i # P) then (gs ! j)\<lparr>Data := F j\<rparr> else gs ! j) [0 ..< length gs] ! j"
    proof (cases "j = i")
      case True
      then show ?thesis
        using j ni sl by simp
    next
      case False
      then show ?thesis
        using j by simp
    qed
  qed
  finally show ?case
    by simp
qed

section \<open>Results on AggregateGradientsImpl\<close>

lemma zero_if_no_samples_fields:
  "st (zero_if_no_samples p) = st p"
  "hdr (zero_if_no_samples p) = hdr p"
  "length (grads (zero_if_no_samples p)) = length (grads p)"
  "i < length (grads p) \<Longrightarrow>
     GetNumElements (grads (zero_if_no_samples p) ! i) = GetNumElements (grads p ! i)"
  "i < length (grads p) \<Longrightarrow>
     length (Data (grads (zero_if_no_samples p) ! i)) = length (Data (grads p ! i))"
  "grads p \<noteq> [] \<Longrightarrow> DeviceId (hd (grads (zero_if_no_samples p))) = DeviceId (hd (grads p))"
  by (simp_all add: zero_if_no_samples_def SetValue_def GetNumElements_def hd_map)

lemma pack_rank_fields:
  "hdr (pack_rank p) = hdr p"
  "grads (pack_rank p) = grads p"
  "m_packedGradientsIndex (st (pack_rank p)) = m_packedGradientsIndex (st p)"
  "m_gradientIndexToAggregate (st (pack_rank p)) = m_gradientIndexToAggregate (st p)"
  "m_recvHeaders (st (pack_rank p)) = m_recvHeaders (st p)"
  "m_intermediateCPUBuffers (st (pack_rank p)) = m_intermediateCPUBuffers (st p)"
  "(m_aggregationBuffer (st (pack_rank p)) = None) = (m_aggregationBuffer (st p) = None)"
  "m_intermediateDistributedCPUBuffer1 (st (pack_rank p)) = m_intermediateDistributedCPUBuffer1 (st p)"
  by (simp_all add: pack_rank_def split: option.splits)

lemma pack_rank_num_elements: "num_elements (pack_rank p) b = num_elements p b"
proof (cases b)
  case AggregationBuffer
  show ?thesis
    unfolding AggregationBuffer
    by (simp add: num_elements.simps pack_rank_def GetNumElements_def pack_gradients_shape
        split: option.splits)
qed (simp_all add: num_elements.simps pack_rank_fields)

lemma pack_rank_read_packed:
  assumes "m_aggregationBuffer (st p) = Some buf"
  shows "read_buffer (pack_rank p) AggregationBuffer =
           Data (pack_gradients (m_packedGradientsIndex (st p)) (grads p) 0 buf)"
  using assms by (simp add: read_buffer.simps pack_rank_def)

lemma pack_rank_valid: "valid_buffer (pack_rank p) b = valid_buffer p b"
  by (cases b) (simp_all add: valid_buffer.simps pack_rank_fields)

text \<open>What a well-formed rank gives.\<close>

lemma well_formed_rank_facts:
  assumes "well_formed_rank e p"
  defines "P \<equiv> m_packedGradientsIndex (st p)" and "L \<equiv> m_gradientIndexToAggregate (st p)"
  shows "\<And>i. i < length (grads p) \<Longrightarrow> length (Data (grads p ! i)) = GetNumElements (grads p ! i)"
    and "\<And>m. m_aggregationBuffer (st p) = Some m \<Longrightarrow> length (Data m) = GetNumElements m"
    and "distinct (P @ L)" and "NONE \<notin> set P"
    and "\<And>i. i < length (grads p) \<Longrightarrow> i \<in> set P \<or> i \<in> set L"
    and "P = [] \<or> NONE \<in> set L" and "NONE \<notin> set (tl L)" and "accesses_defined e p"
    and "length (grads p) \<le> NONE"
  using assms(1) unfolding well_formed_rank_def Let_def P_def L_def
  by (simp_all add: list_all_iff list_all_length split: option.splits)

lemma accesses_defined_facts:
  assumes "accesses_defined e p"
  defines "P \<equiv> m_packedGradientsIndex (st p)" and "L \<equiv> m_gradientIndexToAggregate (st p)"
  shows "grads p \<noteq> []"
    and "\<And>i. i \<in> set P \<Longrightarrow> i < length (grads p)"
    and "\<And>i. i \<in> set L \<Longrightarrow> i \<noteq> NONE \<Longrightarrow> i < length (grads p)"
    and "P \<noteq> [] \<or> NONE \<in> set L \<Longrightarrow> m_aggregationBuffer (st p) \<noteq> None"
    and "P \<noteq> [] \<or> NONE \<in> set L \<Longrightarrow>
           sum_list (map (\<lambda>i. GetNumElements (grads p ! i)) P) \<le> num_elements p AggregationBuffer"
    and "ShouldCopyDataToCPU e (DeviceId (hd (grads p))) \<Longrightarrow>
           length L \<le> length (m_intermediateCPUBuffers (st p))"
    and "\<And>k. ShouldCopyDataToCPU e (DeviceId (hd (grads p))) \<Longrightarrow> k < length L \<Longrightarrow>
           num_elements p (buffer_of_index (L ! k)) \<le> length (read_buffer p (IntermediateCPUBuffer k))"
  using assms(1) unfolding accesses_defined_def Let_def P_def L_def
  by (auto simp: read_buffer.simps)

lemma inj_buffer_of_index: "inj_on buffer_of_index A"
  by (rule inj_onI) (simp add: buffer_of_index_def split: if_splits)

lemma length_concat_Data:
  "\<forall>i \<in> set P. length (Data (gs ! i)) = GetNumElements (gs ! i) \<Longrightarrow>
   length (concat (map (\<lambda>i. Data (gs ! i)) P)) = sum_list (map (\<lambda>i. GetNumElements (gs ! i)) P)"
  by (induction P) simp_all

text \<open>A rank after the zeroing and the packing.\<close>

lemma prepared_rank_packed:
  assumes wf: "well_formed_rank e p"
    and u: "m_packedGradientsIndex (st p) \<noteq> [] \<or> NONE \<in> set (m_gradientIndexToAggregate (st p))"
  defines "z \<equiv> zero_if_no_samples p"
  defines "S \<equiv> sum_list (map (\<lambda>i. GetNumElements (grads p ! i)) (m_packedGradientsIndex (st p)))"
  shows "read_buffer (pack_rank z) AggregationBuffer =
           concat (map (\<lambda>i. Data (grads z ! i)) (m_packedGradientsIndex (st p))) @
           drop S (read_buffer p AggregationBuffer)"
    and "length (read_buffer (pack_rank z) AggregationBuffer) = num_elements p AggregationBuffer"
    and "length (read_buffer p AggregationBuffer) = num_elements p AggregationBuffer"
    and "S \<le> num_elements p AggregationBuffer"
proof -
  let ?P = "m_packedGradientsIndex (st p)"
  note w = well_formed_rank_facts [OF wf]
  note a = accesses_defined_facts [OF w(8)]
  from a(4) [OF u] obtain buf where buf: "m_aggregationBuffer (st p) = Some buf"
    by blast
  have lb: "length (Data buf) = GetNumElements buf"
    by (rule w(2) [OF buf])
  have nb: "num_elements p AggregationBuffer = GetNumElements buf"
    by (simp add: num_elements.simps buf)
  have rb: "read_buffer p AggregationBuffer = Data buf"
    by (simp add: read_buffer.simps buf)
  have zb: "m_aggregationBuffer (st z) = Some buf"
    by (simp add: z_def zero_if_no_samples_fields buf)
  have zP: "m_packedGradientsIndex (st z) = ?P"
    by (simp add: z_def zero_if_no_samples_fields)
  have gi: "GetNumElements (grads z ! i) = GetNumElements (grads p ! i) \<and>
            length (Data (grads z ! i)) = GetNumElements (grads p ! i)" if "i \<in> set ?P" for i
    using a(2) [OF that] w(1) [OF a(2) [OF that]] by (simp add: z_def zero_if_no_samples_fields)
  have Sz: "sum_list (map (\<lambda>i. GetNumElements (grads z ! i)) ?P) = S"
    unfolding S_def by (rule arg_cong [where f = sum_list], rule map_cong [OF refl]) (simp add: gi)
  show S: "S \<le> num_elements p AggregationBuffer"
    unfolding S_def by (rule a(5) [OF u])
  have "Data (pack_gradients ?P (grads z) 0 buf) =
          take 0 (Data buf) @ concat (map (\<lambda>i. Data (grads z ! i)) ?P) @
          drop (0 + sum_list (map (\<lambda>i. GetNumElements (grads z ! i)) ?P)) (Data buf)"
  proof (rule pack_gradients_Data)
    show "0 + sum_list (map (\<lambda>i. GetNumElements (grads z ! i)) ?P) \<le> length (Data buf)"
      using S by (simp add: Sz lb nb)
    show "\<forall>i \<in> set ?P. length (Data (grads z ! i)) = GetNumElements (grads z ! i)"
      by (simp add: gi)
  qed
  then have d: "Data (pack_gradients ?P (grads z) 0 buf) =
                  concat (map (\<lambda>i. Data (grads z ! i)) ?P) @ drop S (Data buf)"
    by (simp add: Sz)
  show r: "read_buffer (pack_rank z) AggregationBuffer =
             concat (map (\<lambda>i. Data (grads z ! i)) ?P) @ drop S (read_buffer p AggregationBuffer)"
    unfolding pack_rank_read_packed [OF zb] zP d rb ..
  have "length (concat (map (\<lambda>i. Data (grads z ! i)) ?P)) =
          sum_list (map (\<lambda>i. GetNumElements (grads z ! i)) ?P)"
    by (rule length_concat_Data) (simp add: gi)
  then show "length (read_buffer (pack_rank z) AggregationBuffer) = num_elements p AggregationBuffer"
    unfolding r using S by (simp add: Sz rb lb nb)
  show "length (read_buffer p AggregationBuffer) = num_elements p AggregationBuffer"
    by (simp add: rb lb nb)
qed

lemma prepared_rank_uniform:
  assumes wf: "well_formed_rank e p" and l: "l \<in> set (m_gradientIndexToAggregate (st p))"
  defines "q \<equiv> pack_rank (zero_if_no_samples p)"
  shows "valid_buffer q (buffer_of_index l)"
    and "length (read_buffer q (buffer_of_index l)) = num_elements p (buffer_of_index l)"
    and "num_elements q (buffer_of_index l) = num_elements p (buffer_of_index l)"
proof -
  note w = well_formed_rank_facts [OF wf]
  note a = accesses_defined_facts [OF w(8)]
  have "valid_buffer q (buffer_of_index l) \<and>
        length (read_buffer q (buffer_of_index l)) = num_elements p (buffer_of_index l) \<and>
        num_elements q (buffer_of_index l) = num_elements p (buffer_of_index l)"
  proof (cases "l = NONE")
    case True
    then have u: "m_packedGradientsIndex (st p) \<noteq> [] \<or> NONE \<in> set (m_gradientIndexToAggregate (st p))"
      using l by simp
    have b: "buffer_of_index l = AggregationBuffer"
      using True by (simp add: buffer_of_index_def)
    have "valid_buffer q AggregationBuffer"
      unfolding q_def pack_rank_valid using a(4) [OF u]
      by (simp add: valid_buffer.simps zero_if_no_samples_fields)
    moreover have "num_elements q AggregationBuffer = num_elements p AggregationBuffer"
      unfolding q_def pack_rank_num_elements
      by (simp add: num_elements.simps zero_if_no_samples_fields)
    ultimately show ?thesis
      unfolding b q_def using prepared_rank_packed(2) [OF wf u] by simp
  next
    case False
    then have b: "buffer_of_index l = Gradient l"
      by (simp add: buffer_of_index_def)
    have i: "l < length (grads p)"
      using a(3) [OF l False] .
    have "valid_buffer q (Gradient l)"
      unfolding q_def pack_rank_valid using i by (simp add: valid_buffer.simps zero_if_no_samples_fields)
    moreover have "num_elements q (Gradient l) = num_elements p (Gradient l)"
      unfolding q_def pack_rank_num_elements using i
      by (simp add: num_elements.simps zero_if_no_samples_fields)
    moreover have "length (read_buffer q (Gradient l)) = num_elements p (Gradient l)"
      unfolding q_def using i w(1) [OF i]
      by (simp add: pack_rank_fields read_buffer.simps num_elements.simps zero_if_no_samples_fields)
    ultimately show ?thesis
      unfolding b by simp
  qed
  then show "valid_buffer q (buffer_of_index l)"
    and "length (read_buffer q (buffer_of_index l)) = num_elements p (buffer_of_index l)"
    and "num_elements q (buffer_of_index l) = num_elements p (buffer_of_index l)"
    by simp_all
qed

lemma same_collectives_facts:
  assumes "same_collectives p0 p"
  shows "m_gradientIndexToAggregate (st p) = m_gradientIndexToAggregate (st p0)"
    and "m_packedGradientsIndex (st p) = m_packedGradientsIndex (st p0)"
    and "length (grads p) = length (grads p0)"
    and "\<And>i. i < length (grads p0) \<Longrightarrow> GetNumElements (grads p ! i) = GetNumElements (grads p0 ! i)"
    and "num_elements p AggregationBuffer = num_elements p0 AggregationBuffer"
    and "(DeviceId (hd (grads p)) = CPUDEVICE) = (DeviceId (hd (grads p0)) = CPUDEVICE)"
    and "numEvalNode (hdr p) = numEvalNode (hdr p0)"
proof -
  from assms have m: "map GetNumElements (grads p0) = map GetNumElements (grads p)"
    by (simp add: same_collectives_def)
  from m show l: "length (grads p) = length (grads p0)"
    using map_eq_imp_length_eq by fastforce
  show "GetNumElements (grads p ! i) = GetNumElements (grads p0 ! i)" if "i < length (grads p0)" for i
  proof -
    have "map GetNumElements (grads p0) ! i = map GetNumElements (grads p) ! i"
      unfolding m ..
    then show ?thesis
      using that l by simp
  qed
qed (use assms in \<open>simp_all add: same_collectives_def\<close>)

lemma pipeline_ok_facts:
  assumes "pipeline_ok e w"
  shows "MainNodeRank e < length w" and "w \<noteq> []"
    and "length w - 1 \<le> length (m_recvHeaders (st (w ! MainNodeRank e)))"
    and "\<And>p. p \<in> set w \<Longrightarrow> well_formed_rank e p"
    and "\<And>p. p \<in> set w \<Longrightarrow> same_collectives (hd w) p"
  using assms unfolding pipeline_ok_def by (auto simp: list_all_iff)

text \<open>
  The reduction stage of the pipeline: on every rank, every entry of the standalone list
  ends as the sum over the ranks, and the other matrices are as they were.
\<close>

lemma inplace_loop_nothing:
  "UseGpuGdr e \<Longrightarrow> inplace_loop e CPUDEVICE L (x, k) = (x, k)"
  by (induction L arbitrary: x k) simp_all

lemma reduce_gradients_prepared:
  assumes ok: "pipeline_ok e w"
  defines "w2 \<equiv> map pack_rank (map zero_if_no_samples w)"
  defines "L \<equiv> m_gradientIndexToAggregate (st (hd w))"
  shows "reduced_on (if transport_selected e w then buffer_of_index ` set L else {}) w2
           (fst (reduce_gradients e w2))"
proof -
  note pk = pipeline_ok_facts [OF ok]
  have ne2: "w2 \<noteq> []" and l2: "length w2 = length w"
    using pk(2) by (simp_all add: w2_def)
  have h2: "hd w2 = pack_rank (zero_if_no_samples (hd w))"
    using pk(2) by (simp add: w2_def hd_map)
  have h0: "hd w \<in> set w"
    using pk(2) by simp
  have L2: "m_gradientIndexToAggregate (st (hd w2)) = L"
    by (simp add: h2 L_def pack_rank_fields zero_if_no_samples_fields)
  note w0 = well_formed_rank_facts [OF pk(4) [OF h0]]
  note a0 = accesses_defined_facts [OF w0(8)]
  have d2: "DeviceId (hd (grads (hd w2))) = DeviceId (hd (grads (hd w)))"
    using a0(1) by (simp add: h2 pack_rank_fields zero_if_no_samples_fields)
  have in2: "\<exists>p \<in> set w. q = pack_rank (zero_if_no_samples p)" if "q \<in> set w2" for q
    using that by (auto simp: w2_def)
  have Lp: "m_gradientIndexToAggregate (st p) = L" if "p \<in> set w" for p
    unfolding L_def by (rule same_collectives_facts(1) [OF pk(5) [OF that]])
  have uni: "uniform_buffer w2 (buffer_of_index l)" if l: "l \<in> set L" for l
    unfolding uniform_buffer_def
  proof
    fix q assume "q \<in> set w2"
    from in2 [OF this] obtain p where p: "p \<in> set w" and q: "q = pack_rank (zero_if_no_samples p)"
      by blast
    have lp: "l \<in> set (m_gradientIndexToAggregate (st p))"
      using l Lp [OF p] by simp
    have l0: "l \<in> set (m_gradientIndexToAggregate (st (hd w)))"
      using l by (simp add: L_def)
    note u = prepared_rank_uniform [OF pk(4) [OF p] lp, folded q]
    note u0 = prepared_rank_uniform [OF pk(4) [OF h0] l0, folded h2]
    note s = same_collectives_facts [OF pk(5) [OF p]]
    have "num_elements p (buffer_of_index l) = num_elements (hd w) (buffer_of_index l)"
    proof (cases "l = NONE")
      case True
      then show ?thesis
        using s(5) by (simp add: buffer_of_index_def)
    next
      case False
      have "l < length (grads (hd w))"
        using a0(3) [OF l0 False] .
      from s(4) [OF this] show ?thesis
        using False by (simp add: buffer_of_index_def num_elements.simps)
    qed
    then show "valid_buffer q (buffer_of_index l) \<and>
               length (read_buffer q (buffer_of_index l)) = num_elements q (buffer_of_index l) \<and>
               num_elements q (buffer_of_index l) = num_elements (hd w2) (buffer_of_index l)"
      using u u0 by simp
  qed
  have dL: "distinct (map buffer_of_index L)"
    using w0(3) by (simp add: distinct_map inj_buffer_of_index L_def)
  have ud: "\<forall>b \<in> set (map buffer_of_index L). uniform_buffer w2 b \<and> is_device b"
    using uni by auto
  show ?thesis
  proof (cases "L = []")
    case True
    then show ?thesis
      by (simp add: reduce_gradients_def Let_def L2 reduced_on_refl)
  next
    case False
    then have pos: "0 < length L"
      by simp
    show ?thesis
    proof (cases "\<not> UseGpuGdr e \<and> DeviceId (hd (grads (hd w))) \<noteq> CPUDEVICE \<and> \<not> nccl_IsSupported e")
      case True
      have r: "reduce_gradients e w2 = staged_pipeline L w2"
        using True pos by (simp add: reduce_gradients_def Let_def L2 d2)
      have sc: "ShouldCopyDataToCPU e (DeviceId (hd (grads p)))" if "p \<in> set w" for p
        using True same_collectives_facts(6) [OF pk(5) [OF that]] by (simp add: ShouldCopyDataToCPU_def)
      have pre: "staged_pre L w2"
        unfolding staged_pre_def
      proof (intro conjI allI impI ballI)
        show "w2 \<noteq> []" by (rule ne2)
        show "L \<noteq> []" by (rule False)
        show "distinct (map buffer_of_index L)" by (rule dL)
        show "NONE \<notin> set (tl L)" using w0(7) by (simp add: L_def)
      next
        fix k assume "k < length L"
        then show "uniform_buffer w2 (buffer_of_index (L ! k))"
          by (intro uni) simp
      next
        fix q assume "q \<in> set w2"
        from in2 [OF this] obtain p where p: "p \<in> set w" and q: "q = pack_rank (zero_if_no_samples p)"
          by blast
        note a = accesses_defined_facts [OF well_formed_rank_facts(8) [OF pk(4) [OF p]]]
        show "length L \<le> length (m_intermediateCPUBuffers (st q))"
          using a(6) [OF sc [OF p]] Lp [OF p]
          by (simp add: q pack_rank_fields zero_if_no_samples_fields)
      qed
      have cap: "num_elements (w2 ! r) (buffer_of_index (L ! k))
                   \<le> length (read_buffer (w2 ! r) (IntermediateCPUBuffer k))"
        if r: "r < length w2" and k: "k < length L" for r k
      proof -
        have p: "w ! r \<in> set w"
          using r l2 by simp
        have q: "w2 ! r = pack_rank (zero_if_no_samples (w ! r))"
          using r l2 by (simp add: w2_def)
        note a = accesses_defined_facts [OF well_formed_rank_facts(8) [OF pk(4) [OF p]]]
        have lk: "L ! k \<in> set (m_gradientIndexToAggregate (st (w ! r)))"
          using k Lp [OF p] by simp
        have "read_buffer (w2 ! r) (IntermediateCPUBuffer k) = read_buffer (w ! r) (IntermediateCPUBuffer k)"
          unfolding q by (simp add: pack_rank_fields read_buffer.simps zero_if_no_samples_fields)
        then show ?thesis
          using a(7) [OF sc [OF p], of k] k Lp [OF p]
            prepared_rank_uniform(3) [OF pk(4) [OF p] lk, folded q]
          by simp
      qed
      have "transport_selected e w"
        using True by (simp add: transport_selected_def)
      then show ?thesis
        unfolding r using staged_pipeline_reduced [OF pre cap] by simp
    next
      case nst: False
      show ?thesis
      proof (cases "nccl_IsSupported e")
        case True
        have r: "reduce_gradients e w2 = (nccl_AllReduce (map buffer_of_index L) w2, 0)"
          using True pos by (simp add: reduce_gradients_def Let_def L2 d2)
        have "reduced_on (set (map buffer_of_index L) \<union> {}) w2 (nccl_AllReduce (map buffer_of_index L) w2)"
          by (rule nccl_AllReduce_reduced_on [OF reduced_on_refl ud dL _ ne2]) simp
        moreover have "transport_selected e w"
          using True by (simp add: transport_selected_def)
        ultimately show ?thesis
          unfolding r by simp
      next
        case False
        have r: "reduce_gradients e w2 = inplace_loop e (DeviceId (hd (grads (hd w)))) L (w2, 0)"
          using False nst pos by (auto simp: reduce_gradients_def Let_def L2 d2)
        show ?thesis
        proof (cases "transport_selected e w")
          case ts: True
          have t: "\<not> UseGpuGdr e \<or> DeviceId (hd (grads (hd w))) \<noteq> CPUDEVICE"
            using ts False by (simp add: transport_selected_def)
          have "reduced_on (set (map buffer_of_index L) \<union> {}) w2
                  (fst (inplace_loop e (DeviceId (hd (grads (hd w)))) L (w2, 0)))"
            by (rule inplace_loop_reduced_on [OF reduced_on_refl ud dL _ ne2 t]) simp
          then show ?thesis
            unfolding r using ts by simp
        next
          case nts: False
          then have "UseGpuGdr e" and "DeviceId (hd (grads (hd w))) = CPUDEVICE"
            by (simp_all add: transport_selected_def)
          then show ?thesis
            unfolding r using nts by (simp add: inplace_loop_nothing reduced_on_refl)
        qed
      qed
    qed
  qed
qed

lemma unpack_rank_fields:
  "hdr (unpack_rank x) = hdr x"
  "grads (unpack_rank x) =
     (case m_aggregationBuffer (st x) of
        None \<Rightarrow> grads x
      | Some buf \<Rightarrow> unpack_gradients (m_packedGradientsIndex (st x)) 0 buf (grads x))"
  by (simp_all add: unpack_rank_def split: option.splits)

text \<open>
  The pipeline on a job on which it can run: it returns; the main rank has folded the
  headers of the other ranks into its own and every rank has that header; with one of
  the transports, every matrix of every rank holds the sum, over the ranks, of the
  matrices at its position after the zeroing.
\<close>

lemma length_unpack_gradients: "length (unpack_gradients P off buf gs) = length gs"
  by (induction P arbitrary: off gs) simp_all

lemma AggregateGradientsImpl_result:
  assumes ok: "pipeline_ok e w"
  shows "\<exists>w' ms. AggregateGradientsImpl e ord w = Inr w' \<and> length w' = length w \<and>
           mset ms = mset (take (MainNodeRank e) (map hdr w) @ drop (Suc (MainNodeRank e)) (map hdr w)) \<and>
           (\<forall>r < length w.
              hdr (w' ! r) = foldl Aggregate (hdr (w ! MainNodeRank e)) ms \<and>
              length (grads (w' ! r)) = length (grads (w ! r)) \<and>
              (transport_selected e w \<longrightarrow>
                 (\<forall>i < length (grads (w ! r)).
                    GetNumElements (grads (w' ! r) ! i) = GetNumElements (grads (w ! r) ! i) \<and>
                    Data (grads (w' ! r) ! i) =
                      reduce_buffers MPI_SUM (map (\<lambda>p. Data (grads (zero_if_no_samples p) ! i)) w))))"
proof -
  let ?main = "MainNodeRank e"
  define w2 where "w2 = map pack_rank (map zero_if_no_samples w)"
  define w3 where "w3 = fst (reduce_gradients e w2)"
  define L where "L = m_gradientIndexToAggregate (st (hd w))"
  define P where "P = m_packedGradientsIndex (st (hd w))"
  define R where "R = (\<lambda>i. reduce_buffers MPI_SUM (map (\<lambda>p. Data (grads (zero_if_no_samples p) ! i)) w))"
  note pk = pipeline_ok_facts [OF ok]
  have h0: "hd w \<in> set w"
    using pk(2) by simp
  note w0 = well_formed_rank_facts [OF pk(4) [OF h0], folded P_def L_def]
  note a0 = accesses_defined_facts [OF w0(8), folded P_def L_def]
  have red: "reduced_on (if transport_selected e w then buffer_of_index ` set L else {}) w2 w3"
    unfolding w3_def w2_def L_def by (rule reduce_gradients_prepared [OF ok])
  have l2: "length w2 = length w"
    by (simp add: w2_def)
  from red have l3: "length w3 = length w"
    and fr: "\<And>r. r < length w \<Longrightarrow> frame (w2 ! r) (w3 ! r)"
    by (simp_all add: reduced_on_def l2)
  from red have rd: "\<And>r b. transport_selected e w \<Longrightarrow> r < length w \<Longrightarrow> is_device b \<Longrightarrow>
               read_buffer (w3 ! r) b =
                 (if b \<in> buffer_of_index ` set L
                  then reduce_buffers MPI_SUM (map (\<lambda>p. read_buffer p b) w2)
                  else read_buffer (w2 ! r) b)"
    by (simp add: reduced_on_def l2)
  have q: "w2 ! r = pack_rank (zero_if_no_samples (w ! r))" if "r < length w" for r
    using that by (simp add: w2_def)
  have mem: "w ! r \<in> set w" if "r < length w" for r
    using that by simp
  have hdr2: "map hdr w2 = map hdr w"
    by (simp add: w2_def pack_rank_fields zero_if_no_samples_fields comp_def)
  have hdr3: "map hdr w3 = map hdr w"
  proof (rule map_eq_nth [OF l3])
    fix i assume i: "i < length w"
    show "hdr (w3 ! i) = hdr (w ! i)"
      using frame_fields(1) [OF fr [OF i]] by (simp add: q [OF i] pack_rank_fields zero_if_no_samples_fields)
  qed
  have tags: "\<forall>j < length (map hdr w). map gradients_tag w2 ! j = map gradients_tag w2 ! ?main"
  proof (intro allI impI)
    fix j assume "j < length (map hdr w)"
    then have j: "j < length w"
      by simp
    have t: "gradients_tag (w2 ! i) = of_nat (length (grads (hd w)))" if "i < length w" for i
      using same_collectives_facts(3) [OF pk(5) [OF mem [OF that]]]
      by (simp add: gradients_tag_def q [OF that] pack_rank_fields zero_if_no_samples_fields)
    show "map gradients_tag w2 ! j = map gradients_tag w2 ! ?main"
      using j pk(1) l2 by (simp add: t)
  qed
  have mh: "?main < length (map hdr w)"
    using pk(1) by simp
  from header_rendezvous_folds [OF mh tags, of ord "m_recvHeaders (st (w3 ! ?main))"]
  obtain recv' ms where
    hr: "header_rendezvous e ord (post_receives ?main (map gradients_tag w2) (map hdr w))
           (m_recvHeaders (st (w3 ! ?main))) (map hdr w) =
         Inr (recv', map (\<lambda>h. foldl Aggregate (map hdr w ! ?main) ms) (map hdr w))"
    and ms: "mset ms = mset (take ?main (map hdr w) @ drop (Suc ?main) (map hdr w))"
    by blast
  define H where "H = foldl Aggregate (hdr (w ! ?main)) ms"
  have Hm: "foldl Aggregate (map hdr w ! ?main) ms = H"
    using pk(1) by (simp add: H_def)
  define w4 where "w4 = w3[?main := (w3 ! ?main)\<lparr>st := (st (w3 ! ?main))\<lparr>m_recvHeaders := recv'\<rparr>\<rparr>]"
  define w' where "w' = map unpack_rank (map2 (\<lambda>p h. p\<lparr>hdr := h\<rparr>) w4 (map (\<lambda>h. H) (map hdr w)))"
  have g0: "(\<not> ?main < length w) = False"
    using pk(1) by simp
  have g1: "((\<exists>p \<in> set w. \<not> accesses_defined e p) \<or>
             length (m_recvHeaders (st (w ! ?main))) < length w - 1) = False"
    using pk(3) well_formed_rank_facts(8) [OF pk(4)] by auto
  have g2: "(\<exists>p \<in> set w. \<not> same_collectives (hd w) p) = False"
    using pk(5) by auto
  have res: "AggregateGradientsImpl e ord w = Inr w'"
    unfolding AggregateGradientsImpl_def Let_def g0 g1 g2 if_False
      w2_def [symmetric] w3_def [symmetric] hdr2 hdr3 hr Hm
    by (simp add: w'_def w4_def)
  have lw: "length w' = length w"
    by (simp add: w'_def w4_def l3)
  have w'r: "\<exists>y. w' ! r = unpack_rank (y\<lparr>hdr := H\<rparr>) \<and> grads y = grads (w3 ! r) \<and>
                m_aggregationBuffer (st y) = m_aggregationBuffer (st (w3 ! r)) \<and>
                m_packedGradientsIndex (st y) = m_packedGradientsIndex (st (w3 ! r))"
    if r: "r < length w" for r
  proof (cases "r = ?main")
    case True
    have "w' ! r = unpack_rank (((w3 ! ?main)\<lparr>st := (st (w3 ! ?main))\<lparr>m_recvHeaders := recv'\<rparr>\<rparr>)\<lparr>hdr := H\<rparr>)"
      using r True l3 by (simp add: w'_def w4_def)
    then show ?thesis
      using True by (intro exI [where x = "(w3 ! ?main)\<lparr>st := (st (w3 ! ?main))\<lparr>m_recvHeaders := recv'\<rparr>\<rparr>"]) simp
  next
    case False
    have "w' ! r = unpack_rank ((w3 ! r)\<lparr>hdr := H\<rparr>)"
      using r False l3 by (simp add: w'_def w4_def)
    then show ?thesis
      by (intro exI [where x = "w3 ! r"]) simp
  qed
  have main: "hdr (w' ! r) = H \<and> length (grads (w' ! r)) = length (grads (w ! r)) \<and>
              (transport_selected e w \<longrightarrow>
                 (\<forall>i < length (grads (w ! r)).
                    GetNumElements (grads (w' ! r) ! i) = GetNumElements (grads (w ! r) ! i) \<and>
                    Data (grads (w' ! r) ! i) = R i))"
    if r: "r < length w" for r
  proof -
    let ?p = "w ! r" and ?q = "w2 ! r" and ?x = "w3 ! r"
    let ?gs = "grads ?x"
    note wr = well_formed_rank_facts [OF pk(4) [OF mem [OF r]]]
    note ar = accesses_defined_facts [OF wr(8)]
    note sr = same_collectives_facts [OF pk(5) [OF mem [OF r]]]
    have Pr: "m_packedGradientsIndex (st ?p) = P" and Lr: "m_gradientIndexToAggregate (st ?p) = L"
      using sr(1,2) by (simp_all add: P_def L_def)
    have frx: "frame ?q ?x"
      by (rule fr [OF r])
    have lg: "length ?gs = length (grads ?p)"
      using frx by (simp add: frame_def q [OF r] pack_rank_fields zero_if_no_samples_fields)
    have Px: "m_packedGradientsIndex (st ?x) = P"
      using frx Pr by (simp add: frame_def q [OF r] pack_rank_fields zero_if_no_samples_fields)
    have nx: "GetNumElements (?gs ! i) = GetNumElements (grads ?p ! i)" if i: "i < length (grads ?p)" for i
    proof -
      have "num_elements ?x (Gradient i) = num_elements ?q (Gradient i)"
        using frame_fields(3) [OF frx, of "Gradient i"] by simp
      then show ?thesis
        using i by (simp add: num_elements.simps q [OF r] pack_rank_fields zero_if_no_samples_fields)
    qed
    have n0: "GetNumElements (grads ?p ! i) = GetNumElements (grads (hd w) ! i)"
      if i: "i < length (grads ?p)" for i
      using sr(4) [of i] i sr(3) by simp
    have col: "map (\<lambda>p. read_buffer p (Gradient i)) w2 = map (\<lambda>p. Data (grads (zero_if_no_samples p) ! i)) w"
      for i
      by (simp add: w2_def read_buffer.simps pack_rank_fields comp_def)
    have stand: "Data (?gs ! i) = R i"
      if ts: "transport_selected e w" and i: "i < length (grads ?p)" and nP: "i \<notin> set P" for i
    proof -
      have iL: "i \<in> set L"
        using wr(5) [OF i] nP Pr Lr by simp
      have iN: "i \<noteq> NONE"
        using i wr(9) by simp
      then have b: "buffer_of_index i = Gradient i"
        by (simp add: buffer_of_index_def)
      have "Gradient i \<in> buffer_of_index ` set L"
        using iL b by (metis imageI)
      then have "read_buffer ?x (Gradient i) = reduce_buffers MPI_SUM (map (\<lambda>p. read_buffer p (Gradient i)) w2)"
        using rd [OF ts r, of "Gradient i"] by simp
      then show ?thesis
        unfolding col by (simp add: read_buffer.simps R_def)
    qed
    have lR: "length (R i) = GetNumElements (grads (hd w) ! i)" if i: "i < length (grads (hd w))" for i
      unfolding R_def
    proof (rule length_reduce_buffers)
      show "map (\<lambda>p. Data (grads (zero_if_no_samples p) ! i)) w \<noteq> []"
        using pk(2) by simp
      show "\<forall>v \<in> set (map (\<lambda>p. Data (grads (zero_if_no_samples p) ! i)) w).
              length v = GetNumElements (grads (hd w) ! i)"
      proof
        fix v assume "v \<in> set (map (\<lambda>p. Data (grads (zero_if_no_samples p) ! i)) w)"
        then obtain p where p: "p \<in> set w" and v: "v = Data (grads (zero_if_no_samples p) ! i)"
          by auto
        note sp = same_collectives_facts [OF pk(5) [OF p]]
        have ip: "i < length (grads p)"
          using i sp(3) by simp
        show "length v = GetNumElements (grads (hd w) ! i)"
          unfolding v
          using well_formed_rank_facts(1) [OF pk(4) [OF p] ip] sp(4) [OF i] ip
          by (simp add: zero_if_no_samples_fields)
      qed
    qed
    from w'r [OF r] obtain y where
      y: "w' ! r = unpack_rank (y\<lparr>hdr := H\<rparr>)" and gy: "grads y = ?gs"
      and ay: "m_aggregationBuffer (st y) = m_aggregationBuffer (st ?x)"
      and Py: "m_packedGradientsIndex (st y) = P"
      using Px by auto
    have hd': "hdr (w' ! r) = H"
      unfolding y by (simp add: unpack_rank_fields)
    have gr: "grads (w' ! r) =
                (case m_aggregationBuffer (st ?x) of
                   None \<Rightarrow> ?gs
                 | Some buf \<Rightarrow> unpack_gradients P 0 buf ?gs)"
      unfolding y by (simp add: unpack_rank_fields gy ay Py split: option.splits)
    have lw': "length (grads (w' ! r)) = length (grads ?p)"
      unfolding gr using lg by (simp add: length_unpack_gradients split: option.splits)
    have un: "grads (w' ! r) = map (\<lambda>i. if i \<in> set P then (?gs ! i)\<lparr>Data := R i\<rparr> else ?gs ! i) [0 ..< length ?gs]"
      if ts: "transport_selected e w"
    proof (cases "P = []")
      case True
      then show ?thesis
        unfolding gr by (simp add: map_nth split: option.splits)
    next
      case False
      then have u: "m_packedGradientsIndex (st ?p) \<noteq> [] \<or>
                    NONE \<in> set (m_gradientIndexToAggregate (st ?p))"
        using Pr by simp
      have NL: "NONE \<in> set L"
        using w0(6) False by simp
      have vp: "valid_buffer ?p AggregationBuffer"
        using ar(4) [OF u] by (simp add: valid_buffer.simps)
      have vz: "valid_buffer (zero_if_no_samples ?p) AggregationBuffer"
        using vp by (simp add: valid_buffer.simps zero_if_no_samples_fields)
      have vq: "valid_buffer ?q AggregationBuffer"
        unfolding q [OF r] pack_rank_valid by (rule vz)
      have vx: "valid_buffer ?x AggregationBuffer"
        using frame_fields(4) [OF frx, of AggregationBuffer] vq by simp
      then obtain buf where buf: "m_aggregationBuffer (st ?x) = Some buf"
        by (auto simp: valid_buffer.simps)
      have AB: "AggregationBuffer \<in> buffer_of_index ` set L"
        using NL by (metis buffer_of_index_def imageI)
      have "Data buf = read_buffer ?x AggregationBuffer"
        by (simp add: read_buffer.simps buf)
      also have "\<dots> = reduce_buffers MPI_SUM (map (\<lambda>p. read_buffer p AggregationBuffer) w2)"
        using rd [OF ts r, of AggregationBuffer] AB by simp
      also have "map (\<lambda>p. read_buffer p AggregationBuffer) w2 =
                   map (\<lambda>p. concat (map (\<lambda>i. Data (grads (zero_if_no_samples p) ! i)) P) @
                             drop (sum_list (map (\<lambda>i. GetNumElements (grads p ! i)) P))
                               (read_buffer p AggregationBuffer)) w"
        unfolding w2_def map_map comp_def
      proof (rule map_cong [OF refl])
        fix p assume p: "p \<in> set w"
        have Pp: "m_packedGradientsIndex (st p) = P"
          using same_collectives_facts(2) [OF pk(5) [OF p]] by (simp add: P_def)
        have up: "m_packedGradientsIndex (st p) \<noteq> [] \<or> NONE \<in> set (m_gradientIndexToAggregate (st p))"
          using False Pp by simp
        show "read_buffer (pack_rank (zero_if_no_samples p)) AggregationBuffer =
                concat (map (\<lambda>i. Data (grads (zero_if_no_samples p) ! i)) P) @
                drop (sum_list (map (\<lambda>i. GetNumElements (grads p ! i)) P))
                  (read_buffer p AggregationBuffer)"
          using prepared_rank_packed(1) [OF pk(4) [OF p] up] by (simp add: Pp)
      qed
      also have "reduce_buffers MPI_SUM
                   (map (\<lambda>p. concat (map (\<lambda>i. Data (grads (zero_if_no_samples p) ! i)) P) @
                             drop (sum_list (map (\<lambda>i. GetNumElements (grads p ! i)) P))
                               (read_buffer p AggregationBuffer)) w) =
                 concat (map (\<lambda>i. reduce_buffers MPI_SUM (map (\<lambda>p. Data (grads (zero_if_no_samples p) ! i)) w)) P) @
                 reduce_buffers MPI_SUM
                   (map (\<lambda>p. drop (sum_list (map (\<lambda>i. GetNumElements (grads p ! i)) P))
                               (read_buffer p AggregationBuffer)) w)"
      proof (rule reduce_buffers_concat [OF pk(2), where n = "\<lambda>i. GetNumElements (grads (hd w) ! i)"])
        show "\<forall>p \<in> set w. \<forall>i \<in> set P.
                length (Data (grads (zero_if_no_samples p) ! i)) = GetNumElements (grads (hd w) ! i)"
        proof (intro ballI)
          fix p i assume p: "p \<in> set w" and i: "i \<in> set P"
          note sp = same_collectives_facts [OF pk(5) [OF p]]
          have i0: "i < length (grads (hd w))"
            using a0(2) [OF i] .
          then have ip: "i < length (grads p)"
            using sp(3) by simp
          show "length (Data (grads (zero_if_no_samples p) ! i)) = GetNumElements (grads (hd w) ! i)"
            using well_formed_rank_facts(1) [OF pk(4) [OF p] ip] sp(4) [OF i0] ip
            by (simp add: zero_if_no_samples_fields)
        qed
      qed
      finally have D: "Data buf = [] @ concat (map R P) @
                         reduce_buffers MPI_SUM
                           (map (\<lambda>p. drop (sum_list (map (\<lambda>i. GetNumElements (grads p ! i)) P))
                                       (read_buffer p AggregationBuffer)) w)"
        by (simp add: R_def)
      have "unpack_gradients P 0 buf ?gs =
              map (\<lambda>i. if i \<in> set P then (?gs ! i)\<lparr>Data := R i\<rparr> else ?gs ! i) [0 ..< length ?gs]"
      proof (rule unpack_gradients_map [OF _ _ D])
        show "distinct P"
          using w0(3) by simp
        show "\<forall>i \<in> set P. i < length ?gs \<and> length (R i) = GetNumElements (?gs ! i)"
        proof
          fix i assume i: "i \<in> set P"
          have i0: "i < length (grads (hd w))"
            using a0(2) [OF i] .
          then have ip: "i < length (grads ?p)"
            using sr(3) by simp
          show "i < length ?gs \<and> length (R i) = GetNumElements (?gs ! i)"
            using ip lg lR [OF i0] nx [OF ip] n0 [OF ip] by simp
        qed
        show "length ([] :: real list) = 0"
          by simp
      qed
      then show ?thesis
        unfolding gr buf by simp
    qed
    have "GetNumElements (grads (w' ! r) ! i) = GetNumElements (grads ?p ! i) \<and>
          Data (grads (w' ! r) ! i) = R i"
      if ts: "transport_selected e w" and i: "i < length (grads ?p)" for i
    proof (cases "i \<in> set P")
      case True
      then show ?thesis
        unfolding un [OF ts] using i lg nx [OF i] by (simp add: GetNumElements_def)
    next
      case False
      then show ?thesis
        unfolding un [OF ts] using i lg nx [OF i] stand [OF ts i False] by simp
    qed
    then show ?thesis
      using hd' lw' by simp
  qed
  show ?thesis
  proof (intro exI conjI allI impI)
    show "AggregateGradientsImpl e ord w = Inr w'" by (rule res)
    show "length w' = length w" by (rule lw)
    show "mset ms = mset (take ?main (map hdr w) @ drop (Suc ?main) (map hdr w))" by (rule ms)
  next
    fix r assume "r < length w"
    from main [OF this] show "hdr (w' ! r) = foldl Aggregate (hdr (w ! ?main)) ms"
      by (simp add: H_def)
  next
    fix r assume "r < length w"
    from main [OF this] show "length (grads (w' ! r)) = length (grads (w ! r))"
      by simp
  next
    fix r i assume "r < length w" "transport_selected e w" "i < length (grads (w ! r))"
    with main [of r] show "GetNumElements (grads (w' ! r) ! i) = GetNumElements (grads (w ! r) ! i)"
      by simp
  next
    fix r i assume "r < length w" "transport_selected e w" "i < length (grads (w ! r))"
    with main [of r]
    show "Data (grads (w' ! r) ! i) =
            reduce_buffers MPI_SUM (map (\<lambda>p. Data (grads (zero_if_no_samples p) ! i)) w)"
      by (simp add: R_def)
  qed
qed

section \<open>Results on AggregateGradients\<close>

lemma zero_if_no_samples_nth:
  "i < length (grads p) \<Longrightarrow> k < length (Data (grads p ! i)) \<Longrightarrow>
   Data (grads (zero_if_no_samples p) ! i) ! k =
     (if numSamples (hdr p) = 0 then 0 else Data (grads p ! i) ! k)"
  by (simp add: zero_if_no_samples_def SetValue_def)

text \<open>
  The result of the pipeline, element by element: a rank without samples contributes
  zero, every other rank its gradient.
\<close>

lemma AggregateGradientsImpl_sums:
  assumes ok: "pipeline_ok e w"
  shows "\<exists>w' ms. AggregateGradientsImpl e ord w = Inr w' \<and> length w' = length w \<and>
           mset ms = mset (take (MainNodeRank e) (map hdr w) @ drop (Suc (MainNodeRank e)) (map hdr w)) \<and>
           (\<forall>r < length w.
              hdr (w' ! r) = foldl Aggregate (hdr (w ! MainNodeRank e)) ms \<and>
              length (grads (w' ! r)) = length (grads (w ! r)) \<and>
              (transport_selected e w \<longrightarrow>
                 (\<forall>i < length (grads (w ! r)).
                    length (Data (grads (w' ! r) ! i)) = GetNumElements (grads (w ! r) ! i) \<and>
                    (\<forall>k < GetNumElements (grads (w ! r) ! i).
                       Data (grads (w' ! r) ! i) ! k =
                         (\<Sum>p\<leftarrow>w. if numSamples (hdr p) = 0 then 0 else Data (grads p ! i) ! k)))))"
proof -
  let ?main = "MainNodeRank e"
  note pk = pipeline_ok_facts [OF ok]
  from AggregateGradientsImpl_result [OF ok, of ord] obtain w' ms where
    h: "AggregateGradientsImpl e ord w = Inr w' \<and> length w' = length w \<and>
           mset ms = mset (take ?main (map hdr w) @ drop (Suc ?main) (map hdr w)) \<and>
           (\<forall>r < length w.
              hdr (w' ! r) = foldl Aggregate (hdr (w ! ?main)) ms \<and>
              length (grads (w' ! r)) = length (grads (w ! r)) \<and>
              (transport_selected e w \<longrightarrow>
                 (\<forall>i < length (grads (w ! r)).
                    GetNumElements (grads (w' ! r) ! i) = GetNumElements (grads (w ! r) ! i) \<and>
                    Data (grads (w' ! r) ! i) =
                      reduce_buffers MPI_SUM (map (\<lambda>p. Data (grads (zero_if_no_samples p) ! i)) w))))"
    by (elim exE)
  note res = h [THEN conjunct1]
  note lw = h [THEN conjunct2, THEN conjunct1]
  note ms = h [THEN conjunct2, THEN conjunct2, THEN conjunct1]
  note hall = h [THEN conjunct2, THEN conjunct2, THEN conjunct2, rule_format]
  have rk: "hdr (w' ! r) = foldl Aggregate (hdr (w ! ?main)) ms \<and>
              length (grads (w' ! r)) = length (grads (w ! r))" if "r < length w" for r
    using hall [OF that] by simp
  have rg: "Data (grads (w' ! r) ! i) =
              reduce_buffers MPI_SUM (map (\<lambda>p. Data (grads (zero_if_no_samples p) ! i)) w)"
    if "transport_selected e w" "r < length w" "i < length (grads (w ! r))" for r i
    using hall [OF that(2), THEN conjunct2, THEN conjunct2, rule_format, OF that(1,3)] by simp
  have el: "length (Data (grads (w' ! r) ! i)) = GetNumElements (grads (w ! r) ! i) \<and>
            (\<forall>k < GetNumElements (grads (w ! r) ! i).
               Data (grads (w' ! r) ! i) ! k =
                 (\<Sum>p\<leftarrow>w. if numSamples (hdr p) = 0 then 0 else Data (grads p ! i) ! k))"
    if ts: "transport_selected e w" and r: "r < length w" and i: "i < length (grads (w ! r))" for r i
  proof -
    let ?n = "GetNumElements (grads (w ! r) ! i)"
    let ?vs = "map (\<lambda>p. Data (grads (zero_if_no_samples p) ! i)) w"
    have D: "Data (grads (w' ! r) ! i) = reduce_buffers MPI_SUM ?vs"
      by (rule rg [OF ts r i])
    have mr: "w ! r \<in> set w"
      using r by simp
    note sr = same_collectives_facts [OF pk(5) [OF mr]]
    have i0: "i < length (grads (hd w))"
      using i sr(3) by simp
    have pp: "i < length (grads p) \<and> length (Data (grads p ! i)) = ?n" if p: "p \<in> set w" for p
    proof -
      note sp = same_collectives_facts [OF pk(5) [OF p]]
      have ip: "i < length (grads p)"
        using i0 sp(3) by simp
      show ?thesis
        using well_formed_rank_facts(1) [OF pk(4) [OF p] ip] sp(4) [OF i0] sr(4) [OF i0] ip by simp
    qed
    have ne: "?vs \<noteq> []"
      using pk(2) by simp
    have al: "\<forall>v \<in> set ?vs. length v = ?n"
    proof
      fix v assume "v \<in> set ?vs"
      then obtain p where p: "p \<in> set w" and v: "v = Data (grads (zero_if_no_samples p) ! i)"
        by auto
      show "length v = ?n"
        unfolding v using pp [OF p] by (simp add: zero_if_no_samples_fields)
    qed
    have "Data (grads (w' ! r) ! i) ! k =
            (\<Sum>p\<leftarrow>w. if numSamples (hdr p) = 0 then 0 else Data (grads p ! i) ! k)"
      if k: "k < ?n" for k
    proof -
      have "reduce_buffers MPI_SUM ?vs ! k = sum_list (map (\<lambda>v. v ! k) ?vs)"
        by (rule reduce_buffers_sum_nth [OF ne al k])
      also have "map (\<lambda>v. v ! k) ?vs = map (\<lambda>p. Data (grads (zero_if_no_samples p) ! i) ! k) w"
        by (simp add: comp_def)
      also have "\<dots> = map (\<lambda>p. if numSamples (hdr p) = 0 then 0 else Data (grads p ! i) ! k) w"
      proof (rule map_cong [OF refl])
        fix p assume "p \<in> set w"
        from pp [OF this] show "Data (grads (zero_if_no_samples p) ! i) ! k =
                (if numSamples (hdr p) = 0 then 0 else Data (grads p ! i) ! k)"
          using k by (intro zero_if_no_samples_nth) simp_all
      qed
      finally show ?thesis
        unfolding D .
    qed
    moreover have "length (Data (grads (w' ! r) ! i)) = ?n"
      unfolding D by (rule length_reduce_buffers [OF ne al])
    ultimately show ?thesis
      by simp
  qed
  show ?thesis
  proof (intro exI conjI allI impI)
    show "AggregateGradientsImpl e ord w = Inr w'" by (rule res)
    show "length w' = length w" by (rule lw)
    show "mset ms = mset (take ?main (map hdr w) @ drop (Suc ?main) (map hdr w))" by (rule ms)
  next
    fix r assume "r < length w"
    from rk [OF this] show "hdr (w' ! r) = foldl Aggregate (hdr (w ! ?main)) ms"
      by simp
  next
    fix r assume "r < length w"
    from rk [OF this] show "length (grads (w' ! r)) = length (grads (w ! r))"
      by simp
  next
    fix r i assume "r < length w" "transport_selected e w" "i < length (grads (w ! r))"
    from el [OF this(2,1,3)]
    show "length (Data (grads (w' ! r) ! i)) = GetNumElements (grads (w ! r) ! i)"
      by simp
  next
    fix r i k
    assume "r < length w" "transport_selected e w" "i < length (grads (w ! r))"
      "k < GetNumElements (grads (w ! r) ! i)"
    with el [of r i]
    show "Data (grads (w' ! r) ! i) ! k =
            (\<Sum>p\<leftarrow>w. if numSamples (hdr p) = 0 then 0 else Data (grads p ! i) ! k)"
      by simp
  qed
qed

lemma enter_rank_keeps:
  assumes "enter_rank e n resetState r k = Inr k'"
  shows "gradients k' = gradients k" and "headerCPU k' = headerCPU k"
  using assms by (auto simp: enter_rank_def split: sum.splits)

lemma entered_keeps:
  assumes "entered e resetState w = Inr w1"
  shows "length w1 = length w"
    and "\<And>r. r < length w \<Longrightarrow> gradients (w1 ! r) = gradients (w ! r)"
    and "\<And>r. r < length w \<Longrightarrow> headerCPU (w1 ! r) = headerCPU (w ! r)"
    and "\<And>r. r < length w \<Longrightarrow>
           m_useAsyncAggregation (aggr (w1 ! r)) = m_useAsyncAggregation (aggr (w ! r))"
proof -
  note s = assms [unfolded entered_def]
  show "length w1 = length w"
    by (rule entered_async(1) [OF s])
  show "m_useAsyncAggregation (aggr (w1 ! r)) = m_useAsyncAggregation (aggr (w ! r))"
    if "r < length w" for r
    by (rule entered_async(2) [OF s that])
  have "enter_rank e (length w) resetState r (w ! r) = Inr (w1 ! r)" if "r < length w" for r
    using sequence_err_map2_Inr(2) [OF s, of r] that by simp
  then show "gradients (w1 ! r) = gradients (w ! r)" and "headerCPU (w1 ! r) = headerCPU (w ! r)"
    if "r < length w" for r
    using that enter_rank_keeps by blast+
qed

lemma store_caller_fields:
  "headerCPU (store_caller p k) = hdr p"
  "gradients (store_caller p k) = zip (map fst (gradients k)) (grads p)"
  "aggr (store_caller p k) = st p"
  by (simp_all add: store_caller_def)

lemma caller_view_fields:
  "hdr (caller_view k) = headerCPU k"
  "grads (caller_view k) = map snd (gradients k)"
  "st (caller_view k) = aggr k"
  by (simp_all add: caller_view_def)

text \<open>
  The synchronous path: the call returns, with the header and the gradients that the
  pipeline leaves, and the return value says whether the aggregated header has samples.
\<close>

lemma AggregateGradients_sync_result:
  assumes n1: "length w \<noteq> 1" and en: "entered e resetState w = Inr w1"
    and sy: "\<forall>k \<in> set w1. \<not> m_useAsyncAggregation (aggr k)"
    and ok: "pipeline_ok e (map caller_view w1)"
  shows "\<exists>rets w' ms.
           AggregateGradients e ord resetState w = Inr (rets, w') \<and>
           length w' = length w \<and> length rets = length w \<and>
           mset ms = mset (take (MainNodeRank e) (map headerCPU w) @
                           drop (Suc (MainNodeRank e)) (map headerCPU w)) \<and>
           (\<forall>r < length w.
              headerCPU (w' ! r) = foldl Aggregate (headerCPU (w ! MainNodeRank e)) ms \<and>
              rets ! r = (numSamples (headerCPU (w' ! r)) \<noteq> 0) \<and>
              map fst (gradients (w' ! r)) = map fst (gradients (w ! r)) \<and>
              (transport_selected e (map caller_view w1) \<longrightarrow>
                 (\<forall>i < length (gradients (w ! r)).
                    length (Data (snd (gradients (w' ! r) ! i))) =
                      GetNumElements (snd (gradients (w ! r) ! i)) \<and>
                    (\<forall>k < GetNumElements (snd (gradients (w ! r) ! i)).
                       Data (snd (gradients (w' ! r) ! i)) ! k =
                         (\<Sum>p\<leftarrow>w. if numSamples (headerCPU p) = 0 then 0
                                   else Data (snd (gradients p ! i)) ! k)))))"
proof -
  let ?main = "MainNodeRank e"
  let ?v = "map caller_view w1"
  note ek = entered_keeps [OF en]
  note pk = pipeline_ok_facts [OF ok]
  have w1: "w1 \<noteq> []"
    using pk(2) by simp
  have mn: "?main < length w"
    using pk(1) ek(1) by simp
  have na: "\<not> (\<forall>k \<in> set w1. m_useAsyncAggregation (aggr k))"
    using sy w1 by (cases w1) auto
  have step: "AggregateGradients e ord resetState w = AggregateGradients_sync e ord w1"
    unfolding AggregateGradients_def using n1 en [unfolded entered_def] na sy by simp
  have hv: "map hdr ?v = map headerCPU w"
    by (rule map_eq_nth) (simp_all add: ek caller_view_fields)
  from AggregateGradientsImpl_sums [OF ok, of ord] obtain ps ms where
    h: "AggregateGradientsImpl e ord ?v = Inr ps \<and> length ps = length ?v \<and>
           mset ms = mset (take ?main (map hdr ?v) @ drop (Suc ?main) (map hdr ?v)) \<and>
           (\<forall>r < length ?v.
              hdr (ps ! r) = foldl Aggregate (hdr (?v ! ?main)) ms \<and>
              length (grads (ps ! r)) = length (grads (?v ! r)) \<and>
              (transport_selected e ?v \<longrightarrow>
                 (\<forall>i < length (grads (?v ! r)).
                    length (Data (grads (ps ! r) ! i)) = GetNumElements (grads (?v ! r) ! i) \<and>
                    (\<forall>k < GetNumElements (grads (?v ! r) ! i).
                       Data (grads (ps ! r) ! i) ! k =
                         (\<Sum>p\<leftarrow>?v. if numSamples (hdr p) = 0 then 0 else Data (grads p ! i) ! k)))))"
    by (elim exE)
  note res = h [THEN conjunct1]
  note lp0 = h [THEN conjunct2, THEN conjunct1]
  note ms = h [THEN conjunct2, THEN conjunct2, THEN conjunct1, unfolded hv]
  note hall = h [THEN conjunct2, THEN conjunct2, THEN conjunct2, rule_format]
  have lp: "length ps = length w"
    using lp0 ek(1) by simp
  have vr: "?v ! r = caller_view (w1 ! r)" if "r < length w" for r
    using that ek(1) by simp
  have gv: "grads (?v ! r) ! i = snd (gradients (w ! r) ! i)"
    if "r < length w" "i < length (gradients (w ! r))" for r i
    using that by (simp add: vr caller_view_fields ek)
  have lv: "length (grads (?v ! r)) = length (gradients (w ! r))" if "r < length w" for r
    using that by (simp add: vr caller_view_fields ek)
  from h have rk: "hdr (ps ! r) = foldl Aggregate (headerCPU (w ! ?main)) ms \<and>
              length (grads (ps ! r)) = length (gradients (w ! r)) \<and>
              (transport_selected e ?v \<longrightarrow>
                 (\<forall>i < length (gradients (w ! r)).
                    length (Data (grads (ps ! r) ! i)) = GetNumElements (snd (gradients (w ! r) ! i)) \<and>
                    (\<forall>k < GetNumElements (snd (gradients (w ! r) ! i)).
                       Data (grads (ps ! r) ! i) ! k =
                         (\<Sum>p\<leftarrow>?v. if numSamples (hdr p) = 0 then 0 else Data (grads p ! i) ! k))))"
    if r: "r < length w" for r
  proof -
    have r': "r < length ?v"
      using r ek(1) by simp
    note a = hall [OF r', THEN conjunct1]
    note b = hall [OF r', THEN conjunct2, THEN conjunct1]
    note c = hall [OF r', THEN conjunct2, THEN conjunct2, rule_format]
    have "hdr (?v ! ?main) = headerCPU (w ! ?main)"
      using mn by (simp add: vr caller_view_fields ek)
    with a have a': "hdr (ps ! r) = foldl Aggregate (headerCPU (w ! ?main)) ms"
      by simp
    have c': "length (Data (grads (ps ! r) ! i)) = GetNumElements (snd (gradients (w ! r) ! i)) \<and>
                 (\<forall>k < GetNumElements (snd (gradients (w ! r) ! i)).
                    Data (grads (ps ! r) ! i) ! k =
                      (\<Sum>p\<leftarrow>?v. if numSamples (hdr p) = 0 then 0 else Data (grads p ! i) ! k))"
      if ts: "transport_selected e ?v" and i: "i < length (gradients (w ! r))" for i
    proof -
      have i': "i < length (grads (?v ! r))"
        using i lv [OF r] by simp
      show ?thesis
        using c [OF ts i'] unfolding gv [OF r i] .
    qed
    show ?thesis
      using a' b [unfolded lv [OF r]] c' by blast
  qed
  have sm: "(\<Sum>p\<leftarrow>?v. if numSamples (hdr p) = 0 then 0 else Data (grads p ! i) ! k) =
            (\<Sum>p\<leftarrow>w. if numSamples (headerCPU p) = 0 then 0 else Data (snd (gradients p ! i)) ! k)"
    if r: "r < length w" and i: "i < length (gradients (w ! r))" for r i and k :: nat
  proof -
    have ij: "i < length (gradients (w ! j))" if j: "j < length w" for j
    proof -
      have "?v ! j \<in> set ?v" "?v ! r \<in> set ?v"
        using j r ek(1) by simp_all
      from same_collectives_facts(3) [OF pk(5) [OF this(1)]]
        same_collectives_facts(3) [OF pk(5) [OF this(2)]]
      show ?thesis
        using i lv [OF r] lv [OF j] by simp
    qed
    have "map (\<lambda>p. if numSamples (hdr p) = 0 then 0 else Data (grads p ! i) ! k) ?v =
          map (\<lambda>p. if numSamples (headerCPU p) = 0 then (0 :: real) else Data (snd (gradients p ! i)) ! k) w"
    proof (rule map_eq_nth)
      show "length ?v = length w"
        by (simp add: ek(1))
      fix j assume j: "j < length w"
      show "(if numSamples (hdr (?v ! j)) = 0 then 0 else Data (grads (?v ! j) ! i) ! k) =
            (if numSamples (headerCPU (w ! j)) = 0 then 0 else Data (snd (gradients (w ! j) ! i)) ! k)"
        using gv [OF j ij [OF j]] j by (simp add: vr caller_view_fields ek)
    qed
    then show ?thesis
      by simp
  qed
  define w' where "w' = map2 store_caller ps w1"
  define rets where "rets = map (\<lambda>p. numSamples (hdr p) \<noteq> 0) ps"
  have r2: "AggregateGradients e ord resetState w = Inr (rets, w')"
    unfolding step AggregateGradients_sync_def res by (simp add: rets_def w'_def)
  have w'r: "w' ! r = store_caller (ps ! r) (w1 ! r)" if "r < length w" for r
    using that lp ek(1) by (simp add: w'_def)
  have fin: "headerCPU (w' ! r) = foldl Aggregate (headerCPU (w ! ?main)) ms \<and>
              rets ! r = (numSamples (headerCPU (w' ! r)) \<noteq> 0) \<and>
              map fst (gradients (w' ! r)) = map fst (gradients (w ! r)) \<and>
              (transport_selected e ?v \<longrightarrow>
                 (\<forall>i < length (gradients (w ! r)).
                    length (Data (snd (gradients (w' ! r) ! i))) =
                      GetNumElements (snd (gradients (w ! r) ! i)) \<and>
                    (\<forall>k < GetNumElements (snd (gradients (w ! r) ! i)).
                       Data (snd (gradients (w' ! r) ! i)) ! k =
                         (\<Sum>p\<leftarrow>w. if numSamples (headerCPU p) = 0 then 0
                                   else Data (snd (gradients p ! i)) ! k))))"
    if r: "r < length w" for r
  proof -
    note k = rk [OF r]
    have lg: "length (grads (ps ! r)) = length (gradients (w ! r))"
      using k by simp
    have g: "gradients (w' ! r) = zip (map fst (gradients (w ! r))) (grads (ps ! r))"
      by (simp add: w'r [OF r] store_caller_fields ek(2) [OF r])
    have s: "snd (gradients (w' ! r) ! i) = grads (ps ! r) ! i" if "i < length (gradients (w ! r))" for i
      unfolding g using that lg by simp
    have "headerCPU (w' ! r) = foldl Aggregate (headerCPU (w ! ?main)) ms"
      using k by (simp add: w'r [OF r] store_caller_fields)
    moreover have "rets ! r = (numSamples (headerCPU (w' ! r)) \<noteq> 0)"
      using r lp by (simp add: rets_def w'r [OF r] store_caller_fields)
    moreover have "map fst (gradients (w' ! r)) = map fst (gradients (w ! r))"
      unfolding g using lg by simp
    moreover have "length (Data (snd (gradients (w' ! r) ! i))) =
                   GetNumElements (snd (gradients (w ! r) ! i)) \<and>
                 (\<forall>k < GetNumElements (snd (gradients (w ! r) ! i)).
                    Data (snd (gradients (w' ! r) ! i)) ! k =
                      (\<Sum>p\<leftarrow>w. if numSamples (headerCPU p) = 0 then 0
                                else Data (snd (gradients p ! i)) ! k))"
      if ts: "transport_selected e ?v" and i: "i < length (gradients (w ! r))" for i
      unfolding s [OF i] using k ts i sm [OF r i] by simp
    ultimately show ?thesis
      by simp
  qed
  show ?thesis
  proof (intro exI conjI allI impI)
    show "AggregateGradients e ord resetState w = Inr (rets, w')" by (rule r2)
    show "length w' = length w" by (simp add: w'_def lp ek(1))
    show "length rets = length w" by (simp add: rets_def lp)
    show "mset ms = mset (take ?main (map headerCPU w) @ drop (Suc ?main) (map headerCPU w))"
      by (rule ms)
  next
    fix r assume "r < length w"
    from fin [OF this] show "headerCPU (w' ! r) = foldl Aggregate (headerCPU (w ! ?main)) ms"
      by simp
  next
    fix r assume "r < length w"
    from fin [OF this] show "rets ! r = (numSamples (headerCPU (w' ! r)) \<noteq> 0)"
      by simp
  next
    fix r assume "r < length w"
    from fin [OF this] show "map fst (gradients (w' ! r)) = map fst (gradients (w ! r))"
      by simp
  next
    fix r i
    assume "r < length w" "transport_selected e ?v" "i < length (gradients (w ! r))"
    with fin [of r] show "length (Data (snd (gradients (w' ! r) ! i))) =
                   GetNumElements (snd (gradients (w ! r) ! i))"
      by simp
  next
    fix r i k
    assume "r < length w" "transport_selected e ?v" "i < length (gradients (w ! r))"
      "k < GetNumElements (snd (gradients (w ! r) ! i))"
    with fin [of r] show "Data (snd (gradients (w' ! r) ! i)) ! k =
                      (\<Sum>p\<leftarrow>w. if numSamples (headerCPU p) = 0 then 0
                                else Data (snd (gradients p ! i)) ! k)"
      by simp
  qed
qed

text \<open>The asynchronous path, step by step.\<close>

lemma store_shadow_pending:
  "m_pendingAsyncAggregation (aggr (store_shadow p k)) = None"
  by (simp add: store_shadow_def)

lemma join_pending_none:
  assumes "join_pending e ord w = Inr wj"
  shows "\<forall>k \<in> set wj. m_pendingAsyncAggregation (aggr k) = None"
proof (cases "\<forall>k \<in> set w. m_pendingAsyncAggregation (aggr k) = None")
  case True
  then have "wj = w"
    using assms by (simp add: join_pending_def)
  with True show ?thesis
    by simp
next
  case False
  then obtain ps' where wj: "wj = map2 store_shadow ps' w"
    using assms by (auto simp: join_pending_def split: if_splits sum.splits)
  show ?thesis
  proof
    fix k assume "k \<in> set wj"
    then obtain p k0 where "k = store_shadow p k0"
      unfolding wj by (auto simp: in_set_zip)
    then show "m_pendingAsyncAggregation (aggr k) = None"
      by (simp add: store_shadow_pending)
  qed
qed

lemma swap_rank_Inr:
  assumes "swap_rank k = Inr k2"
  shows "m_bufferedGradHeader (aggr k) = Some (headerCPU k2)"
    and "m_pendingAsyncAggregation (aggr k2) = m_pendingAsyncAggregation (aggr k)"
  using assms by (auto simp: swap_rank_def split: sum.splits option.splits)

lemma dispatch_rank_Inr:
  assumes "dispatch_rank resetState k2 = Inr (b, k3)"
  shows "b = (resetState \<or> numSamples (headerCPU k2) \<noteq> 0)"
    and "headerCPU k3 = headerCPU k2"
    and "m_pendingAsyncAggregation (aggr k2) = None \<Longrightarrow>
           b = (m_pendingAsyncAggregation (aggr k3) \<noteq> None)"
  using assms by (auto simp: dispatch_rank_def split: if_splits)

lemma AggregateGradients_async_returns:
  assumes "AggregateGradients_async e ord resetState w1 = Inr (rets, w')"
  shows "\<exists>wj. join_pending e ord w1 = Inr wj \<and> length rets = length w' \<and> length wj = length w' \<and>
           (\<forall>r < length w'.
              m_bufferedGradHeader (aggr (wj ! r)) = Some (headerCPU (w' ! r)) \<and>
              rets ! r = (resetState \<or> numSamples (headerCPU (w' ! r)) \<noteq> 0) \<and>
              rets ! r = (m_pendingAsyncAggregation (aggr (w' ! r)) \<noteq> None))"
proof -
  from assms obtain wj w2 rs where
    j: "join_pending e ord w1 = Inr wj"
    and s: "sequence_err (map swap_rank wj) = Inr w2"
    and d: "sequence_err (map (dispatch_rank resetState) w2) = Inr rs"
    and r: "rets = map fst rs" and w': "w' = map snd rs"
    by (auto simp: AggregateGradients_async_def split: sum.splits)
  note sl = sequence_err_map_Inr [OF s]
  note dl = sequence_err_map_Inr [OF d]
  note jn = join_pending_none [OF j]
  have each: "m_bufferedGradHeader (aggr (wj ! i)) = Some (headerCPU (w' ! i)) \<and>
              rets ! i = (resetState \<or> numSamples (headerCPU (w' ! i)) \<noteq> 0) \<and>
              rets ! i = (m_pendingAsyncAggregation (aggr (w' ! i)) \<noteq> None)"
    if i: "i < length w'" for i
  proof -
    have i2: "i < length w2" and ij: "i < length wj" and ir: "i < length rs"
      using i w' dl(1) sl(1) by simp_all
    have sw: "swap_rank (wj ! i) = Inr (w2 ! i)"
      by (rule sl(2) [OF ij])
    have di: "dispatch_rank resetState (w2 ! i) = Inr (rets ! i, w' ! i)"
      using dl(2) [OF i2] ir by (simp add: r w')
    have pn: "m_pendingAsyncAggregation (aggr (w2 ! i)) = None"
      using swap_rank_Inr(2) [OF sw] jn ij by simp
    show ?thesis
      using swap_rank_Inr(1) [OF sw] dispatch_rank_Inr(1,2) [OF di] dispatch_rank_Inr(3) [OF di pn]
      by simp
  qed
  show ?thesis
  proof (intro exI conjI allI impI)
    show "join_pending e ord w1 = Inr wj" by (rule j)
    show "length rets = length w'" by (simp add: r w')
    show "length wj = length w'" using dl(1) sl(1) by (simp add: w')
  next
    fix r assume "r < length w'"
    then show "m_bufferedGradHeader (aggr (wj ! r)) = Some (headerCPU (w' ! r))"
      by (rule each [THEN conjunct1])
  next
    fix r assume "r < length w'"
    then show "rets ! r = (resetState \<or> numSamples (headerCPU (w' ! r)) \<noteq> 0)"
      by (rule each [THEN conjunct2, THEN conjunct1])
  next
    fix r assume "r < length w'"
    then show "rets ! r = (m_pendingAsyncAggregation (aggr (w' ! r)) \<noteq> None)"
      by (rule each [THEN conjunct2, THEN conjunct2])
  qed
qed

text \<open>A call on ranks that all aggregate asynchronously takes the asynchronous path.\<close>

lemma AggregateGradients_async_path:
  assumes "length w \<noteq> 1" and "w \<noteq> []" and "\<forall>k \<in> set w. m_useAsyncAggregation (aggr k)"
    and "AggregateGradients e ord resetState w = Inr (rets, w')"
  shows "\<exists>w1. entered e resetState w = Inr w1 \<and>
              AggregateGradients_async e ord resetState w1 = Inr (rets, w')"
proof -
  from assms(1,4) obtain w1 where en: "entered e resetState w = Inr w1"
    by (auto simp: AggregateGradients_def entered_def split: sum.splits)
  note ek = entered_keeps [OF en]
  have "\<forall>k \<in> set w1. m_useAsyncAggregation (aggr k)"
    unfolding all_set_nth using assms(3) ek(1,4) by (simp add: all_set_nth)
  then have "AggregateGradients e ord resetState w = AggregateGradients_async e ord resetState w1"
    using assms(1) en by (simp add: AggregateGradients_def entered_def)
  with assms(4) en show ?thesis
    by simp
qed

section \<open>The claims on the reduction pipeline\<close>

lemmas [eval_defs] =
  entered_def enter_rank_def caller_view_def pipeline_ok_def well_formed_rank_def
  accesses_defined_def same_collectives_def transport_selected_def
  num_elements.simps read_buffer.simps buffer_of_index_def

text \<open>
  Two ranks with one 2 x 2 gradient each on GPU 0, at their first synchronous call: the
  call gets past \<^verbatim>\<open>ResetState\<close>, and the pipeline can run on the state it leaves.
\<close>

lemma example_sync_entered:
  "\<exists>w1. entered (example_env False nccl) resetState
           [example_rank False n0 [1, 2, 3, 4], example_rank False n1 [5, 6, 7, 8]] = Inr w1 \<and>
         list_all (\<lambda>k. \<not> m_useAsyncAggregation (aggr k)) w1 \<and>
         pipeline_ok (example_env False nccl) (map caller_view w1) \<and>
         transport_selected (example_env False nccl) (map caller_view w1) \<and>
         map hdr (map caller_view w1) = [example_header n0 1, example_header n1 1] \<and>
         map grads (map caller_view w1) =
           [[example_matrix 2 2 0 [1, 2, 3, 4]], [example_matrix 2 2 0 [5, 6, 7, 8]]]"
  by (cases nccl) (simp_all add: eval_defs)

lemma example_views_two:
  assumes "map hdr ps = [h0, h1]" and "map grads ps = [g0, g1]"
  shows "\<exists>p0 p1. ps = [p0, p1] \<and> hdr p0 = h0 \<and> hdr p1 = h1 \<and> grads p0 = g0 \<and> grads p1 = g1"
  using assms by (auto simp: map_eq_Cons_conv)

text \<open>
  Claim C1, as stated, fails. Two ranks on the NCCL transport hold the gradients
  (1, 2, 3, 4) and (5, 6, 7, 8); the header of the first rank has no samples. After the
  call both ranks hold (5, 6, 7, 8), and not the elementwise sum (6, 8, 10, 12) of the
  gradients they held before: the gradient of the rank without samples is zeroed first.
\<close>

theorem C1_counterexample:
  "map_sum id (\<lambda>r. map (\<lambda>k. map (\<lambda>g. Data (snd g)) (gradients k)) (snd r))
     (AggregateGradients (example_env False True) [] False
        [example_rank False 0 [1, 2, 3, 4], example_rank False 5 [5, 6, 7, 8]]) =
   Inr [[[5, 6, 7, 8]], [[5, 6, 7, 8]]]"
  by (simp add: AggregateGradients_def AggregateGradients_sync_def AggregateGradientsImpl_def
      store_caller_def zero_if_no_samples_def pack_rank_def unpack_rank_def assign_columns_def
      column_slice_def reduce_gradients_def AllReduce_def copy_elements_def gradients_tag_def
      write_buffer.simps wait_headers.simps eval_defs)

text \<open>
  Claim C1, amended. On a job on which the pipeline can run, with one of the four
  transports (NCCL, staged GPU-to-CPU MPI, GPU-direct MPI, non-blocking CPU MPI),
  AggregateGradientsImpl returns, and afterwards every element of the gradient at each
  position, packed or standalone, on every rank is the sum over all ranks of that
  element, where a rank whose header has no samples contributes zero and every other
  rank contributes its gradient unscaled. This is the reduction that the asynchronous
  mode dispatches. A synchronous call of AggregateGradients with more than one rank that
  gets past ResetState into such a state returns with the same sums in the gradients of
  the caller, at the addresses they had.
\<close>

theorem C1_gradients_are_summed_after_zeroing:
  "(pipeline_ok e ps \<and> transport_selected e ps \<longrightarrow>
      (\<exists>ps'. AggregateGradientsImpl e ord ps = Inr ps' \<and> length ps' = length ps \<and>
         (\<forall>r < length ps.
            length (grads (ps' ! r)) = length (grads (ps ! r)) \<and>
            (\<forall>i < length (grads (ps ! r)).
               length (Data (grads (ps' ! r) ! i)) = GetNumElements (grads (ps ! r) ! i) \<and>
               (\<forall>k < GetNumElements (grads (ps ! r) ! i).
                  Data (grads (ps' ! r) ! i) ! k =
                    (\<Sum>p\<leftarrow>ps. if numSamples (hdr p) = 0 then 0 else Data (grads p ! i) ! k)))))) \<and>
   (length w \<noteq> 1 \<and> entered e resetState w = Inr w1 \<and>
    list_all (\<lambda>k. \<not> m_useAsyncAggregation (aggr k)) w1 \<and>
    pipeline_ok e (map caller_view w1) \<and> transport_selected e (map caller_view w1) \<longrightarrow>
      (\<exists>rets w'. AggregateGradients e ord resetState w = Inr (rets, w') \<and> length w' = length w \<and>
         (\<forall>r < length w.
            map fst (gradients (w' ! r)) = map fst (gradients (w ! r)) \<and>
            (\<forall>i < length (gradients (w ! r)).
               length (Data (snd (gradients (w' ! r) ! i))) =
                 GetNumElements (snd (gradients (w ! r) ! i)) \<and>
               (\<forall>k < GetNumElements (snd (gradients (w ! r) ! i)).
                  Data (snd (gradients (w' ! r) ! i)) ! k =
                    (\<Sum>p\<leftarrow>w. if numSamples (headerCPU p) = 0 then 0
                              else Data (snd (gradients p ! i)) ! k))))))"
proof (intro conjI impI)
  assume a: "pipeline_ok e ps \<and> transport_selected e ps"
  then have ok: "pipeline_ok e ps" and ts: "transport_selected e ps"
    by simp_all
  from AggregateGradientsImpl_sums [OF ok, of ord] obtain ps' ms where
    h: "AggregateGradientsImpl e ord ps = Inr ps' \<and> length ps' = length ps \<and>
           mset ms = mset (take (MainNodeRank e) (map hdr ps) @ drop (Suc (MainNodeRank e)) (map hdr ps)) \<and>
           (\<forall>r < length ps.
              hdr (ps' ! r) = foldl Aggregate (hdr (ps ! MainNodeRank e)) ms \<and>
              length (grads (ps' ! r)) = length (grads (ps ! r)) \<and>
              (transport_selected e ps \<longrightarrow>
                 (\<forall>i < length (grads (ps ! r)).
                    length (Data (grads (ps' ! r) ! i)) = GetNumElements (grads (ps ! r) ! i) \<and>
                    (\<forall>k < GetNumElements (grads (ps ! r) ! i).
                       Data (grads (ps' ! r) ! i) ! k =
                         (\<Sum>p\<leftarrow>ps. if numSamples (hdr p) = 0 then 0 else Data (grads p ! i) ! k)))))"
    by (elim exE)
  note hall = h [THEN conjunct2, THEN conjunct2, THEN conjunct2, rule_format]
  show "\<exists>ps'. AggregateGradientsImpl e ord ps = Inr ps' \<and> length ps' = length ps \<and>
         (\<forall>r < length ps.
            length (grads (ps' ! r)) = length (grads (ps ! r)) \<and>
            (\<forall>i < length (grads (ps ! r)).
               length (Data (grads (ps' ! r) ! i)) = GetNumElements (grads (ps ! r) ! i) \<and>
               (\<forall>k < GetNumElements (grads (ps ! r) ! i).
                  Data (grads (ps' ! r) ! i) ! k =
                    (\<Sum>p\<leftarrow>ps. if numSamples (hdr p) = 0 then 0 else Data (grads p ! i) ! k))))"
  proof (intro exI conjI allI impI)
    show "AggregateGradientsImpl e ord ps = Inr ps'"
      by (rule h [THEN conjunct1])
    show "length ps' = length ps"
      by (rule h [THEN conjunct2, THEN conjunct1])
  next
    fix r assume "r < length ps"
    then show "length (grads (ps' ! r)) = length (grads (ps ! r))"
      by (rule hall [THEN conjunct2, THEN conjunct1])
  next
    fix r i assume "r < length ps" "i < length (grads (ps ! r))"
    then show "length (Data (grads (ps' ! r) ! i)) = GetNumElements (grads (ps ! r) ! i)"
      using hall [of r, THEN conjunct2, THEN conjunct2, rule_format, OF _ ts, of i] by simp
  next
    fix r i k
    assume "r < length ps" "i < length (grads (ps ! r))" "k < GetNumElements (grads (ps ! r) ! i)"
    then show "Data (grads (ps' ! r) ! i) ! k =
            (\<Sum>p\<leftarrow>ps. if numSamples (hdr p) = 0 then 0 else Data (grads p ! i) ! k)"
      using hall [of r, THEN conjunct2, THEN conjunct2, rule_format, OF _ ts, of i] by simp
  qed
next
  assume a: "length w \<noteq> 1 \<and> entered e resetState w = Inr w1 \<and>
    list_all (\<lambda>k. \<not> m_useAsyncAggregation (aggr k)) w1 \<and>
    pipeline_ok e (map caller_view w1) \<and> transport_selected e (map caller_view w1)"
  then have n1: "length w \<noteq> 1" and en: "entered e resetState w = Inr w1"
    and sy: "\<forall>k \<in> set w1. \<not> m_useAsyncAggregation (aggr k)"
    and ok: "pipeline_ok e (map caller_view w1)" and ts: "transport_selected e (map caller_view w1)"
    by (simp_all add: list_all_iff)
  from AggregateGradients_sync_result [OF n1 en sy ok, of ord] obtain rets w' ms where
    h: "AggregateGradients e ord resetState w = Inr (rets, w') \<and>
           length w' = length w \<and> length rets = length w \<and>
           mset ms = mset (take (MainNodeRank e) (map headerCPU w) @
                           drop (Suc (MainNodeRank e)) (map headerCPU w)) \<and>
           (\<forall>r < length w.
              headerCPU (w' ! r) = foldl Aggregate (headerCPU (w ! MainNodeRank e)) ms \<and>
              rets ! r = (numSamples (headerCPU (w' ! r)) \<noteq> 0) \<and>
              map fst (gradients (w' ! r)) = map fst (gradients (w ! r)) \<and>
              (transport_selected e (map caller_view w1) \<longrightarrow>
                 (\<forall>i < length (gradients (w ! r)).
                    length (Data (snd (gradients (w' ! r) ! i))) =
                      GetNumElements (snd (gradients (w ! r) ! i)) \<and>
                    (\<forall>k < GetNumElements (snd (gradients (w ! r) ! i)).
                       Data (snd (gradients (w' ! r) ! i)) ! k =
                         (\<Sum>p\<leftarrow>w. if numSamples (headerCPU p) = 0 then 0
                                   else Data (snd (gradients p ! i)) ! k)))))"
    by (elim exE)
  note hall = h [THEN conjunct2, THEN conjunct2, THEN conjunct2, THEN conjunct2, rule_format]
  show "\<exists>rets w'. AggregateGradients e ord resetState w = Inr (rets, w') \<and> length w' = length w \<and>
         (\<forall>r < length w.
            map fst (gradients (w' ! r)) = map fst (gradients (w ! r)) \<and>
            (\<forall>i < length (gradients (w ! r)).
               length (Data (snd (gradients (w' ! r) ! i))) =
                 GetNumElements (snd (gradients (w ! r) ! i)) \<and>
               (\<forall>k < GetNumElements (snd (gradients (w ! r) ! i)).
                  Data (snd (gradients (w' ! r) ! i)) ! k =
                    (\<Sum>p\<leftarrow>w. if numSamples (headerCPU p) = 0 then 0
                              else Data (snd (gradients p ! i)) ! k))))"
  proof (intro exI conjI allI impI)
    show "AggregateGradients e ord resetState w = Inr (rets, w')"
      by (rule h [THEN conjunct1])
    show "length w' = length w"
      by (rule h [THEN conjunct2, THEN conjunct1])
  next
    fix r assume "r < length w"
    then show "map fst (gradients (w' ! r)) = map fst (gradients (w ! r))"
      by (rule hall [THEN conjunct2, THEN conjunct2, THEN conjunct1])
  next
    fix r i assume "r < length w" "i < length (gradients (w ! r))"
    then show "length (Data (snd (gradients (w' ! r) ! i))) =
                 GetNumElements (snd (gradients (w ! r) ! i))"
      using hall [of r, THEN conjunct2, THEN conjunct2, THEN conjunct2, rule_format, OF _ ts, of i]
      by simp
  next
    fix r i k
    assume "r < length w" "i < length (gradients (w ! r))"
      "k < GetNumElements (snd (gradients (w ! r) ! i))"
    then show "Data (snd (gradients (w' ! r) ! i)) ! k =
            (\<Sum>p\<leftarrow>w. if numSamples (headerCPU p) = 0 then 0
                      else Data (snd (gradients p ! i)) ! k)"
      using hall [of r, THEN conjunct2, THEN conjunct2, THEN conjunct2, rule_format, OF _ ts, of i]
      by simp
  qed
qed

theorem C1_witness:
  "\<exists>w1 ps' rets w'.
     entered (example_env False False) False
       [example_rank False 10 [1, 2, 3, 4], example_rank False 5 [5, 6, 7, 8]] = Inr w1 \<and>
     AggregateGradientsImpl (example_env False False) [] (map caller_view w1) = Inr ps' \<and>
     Data (grads (ps' ! 0) ! 0) ! 0 = 6 \<and>
     AggregateGradients (example_env False False) [] False
       [example_rank False 10 [1, 2, 3, 4], example_rank False 5 [5, 6, 7, 8]] = Inr (rets, w') \<and>
     Data (snd (gradients (w' ! 1) ! 0)) ! 3 = 12"
proof -
  let ?e = "example_env False False"
  let ?w = "[example_rank False 10 [1, 2, 3, 4], example_rank False 5 [5, 6, 7, 8]]"
  from example_sync_entered [of False False 10 5] obtain w1 where
    x: "entered ?e False ?w = Inr w1 \<and>
         list_all (\<lambda>k. \<not> m_useAsyncAggregation (aggr k)) w1 \<and>
         pipeline_ok ?e (map caller_view w1) \<and>
         transport_selected ?e (map caller_view w1) \<and>
         map hdr (map caller_view w1) = [example_header 10 1, example_header 5 1] \<and>
         map grads (map caller_view w1) =
           [[example_matrix 2 2 0 [1, 2, 3, 4]], [example_matrix 2 2 0 [5, 6, 7, 8]]]"
    by (elim exE)
  note en = x [THEN conjunct1]
  note sy = x [THEN conjunct2, THEN conjunct1]
  note ok = x [THEN conjunct2, THEN conjunct2, THEN conjunct1]
  note ts = x [THEN conjunct2, THEN conjunct2, THEN conjunct2, THEN conjunct1]
  note hs = x [THEN conjunct2, THEN conjunct2, THEN conjunct2, THEN conjunct2, THEN conjunct1]
  note gs = x [THEN conjunct2, THEN conjunct2, THEN conjunct2, THEN conjunct2, THEN conjunct2]
  from example_views_two [OF hs gs] obtain p0 p1 where
    vf: "map caller_view w1 = [p0, p1] \<and> hdr p0 = example_header 10 1 \<and>
         hdr p1 = example_header 5 1 \<and> grads p0 = [example_matrix 2 2 0 [1, 2, 3, 4]] \<and>
         grads p1 = [example_matrix 2 2 0 [5, 6, 7, 8]]"
    by (elim exE)
  note v = vf [THEN conjunct1]
  note f = vf [THEN conjunct2, THEN conjunct1] vf [THEN conjunct2, THEN conjunct2, THEN conjunct1]
    vf [THEN conjunct2, THEN conjunct2, THEN conjunct2, THEN conjunct1]
    vf [THEN conjunct2, THEN conjunct2, THEN conjunct2, THEN conjunct2]
  note T = C1_gradients_are_summed_after_zeroing
             [where e = ?e and ps = "map caller_view w1" and ord = "[]" and w = ?w
                and resetState = False and ?w1.0 = w1]
  from T [THEN conjunct1, rule_format, OF conjI [OF ok ts]] obtain ps' where
    a: "AggregateGradientsImpl ?e [] (map caller_view w1) = Inr ps'"
    and b: "\<forall>r < length (map caller_view w1).
            length (grads (ps' ! r)) = length (grads (map caller_view w1 ! r)) \<and>
            (\<forall>i < length (grads (map caller_view w1 ! r)).
               length (Data (grads (ps' ! r) ! i)) = GetNumElements (grads (map caller_view w1 ! r) ! i) \<and>
               (\<forall>k < GetNumElements (grads (map caller_view w1 ! r) ! i).
                  Data (grads (ps' ! r) ! i) ! k =
                    (\<Sum>p\<leftarrow>map caller_view w1. if numSamples (hdr p) = 0 then 0 else Data (grads p ! i) ! k)))"
    by blast
  have a6: "Data (grads (ps' ! 0) ! 0) ! 0 = 6"
    using b [unfolded v, rule_format, of 0, THEN conjunct2, rule_format, of 0, THEN conjunct2,
        rule_format, of 0]
    by (simp add: f example_matrix_def example_header_def GetNumElements_def)
  have c: "length ?w \<noteq> 1 \<and> entered ?e False ?w = Inr w1 \<and>
    list_all (\<lambda>k. \<not> m_useAsyncAggregation (aggr k)) w1 \<and>
    pipeline_ok ?e (map caller_view w1) \<and> transport_selected ?e (map caller_view w1)"
    using en sy ok ts by simp
  from T [THEN conjunct2, rule_format, OF c] obtain rets w' where
    d: "AggregateGradients ?e [] False ?w = Inr (rets, w')"
    and g: "\<forall>r < length ?w.
            map fst (gradients (w' ! r)) = map fst (gradients (?w ! r)) \<and>
            (\<forall>i < length (gradients (?w ! r)).
               length (Data (snd (gradients (w' ! r) ! i))) =
                 GetNumElements (snd (gradients (?w ! r) ! i)) \<and>
               (\<forall>k < GetNumElements (snd (gradients (?w ! r) ! i)).
                  Data (snd (gradients (w' ! r) ! i)) ! k =
                    (\<Sum>p\<leftarrow>?w. if numSamples (headerCPU p) = 0 then 0
                              else Data (snd (gradients p ! i)) ! k)))"
    by blast
  have d12: "Data (snd (gradients (w' ! 1) ! 0)) ! 3 = 12"
    using g [rule_format, of 1, THEN conjunct2, rule_format, of 0, THEN conjunct2,
        rule_format, of 3]
    by (simp add: example_rank_def example_matrix_def example_header_def GetNumElements_def)
  show ?thesis
    by (rule exI [of _ w1], rule exI [of _ ps'], rule exI [of _ rets], rule exI [of _ w'], intro conjI)
      (fact en a a6 d d12)+
qed

text \<open>
  A rank whose header has no samples, on a job on which the pipeline can run with one of
  the four transports: all its gradients are set to zero before anything is reduced, the
  pipeline returns, and every element of every gradient on every rank ends as the sum of
  that element over the other ranks only (each of them zeroed in its turn if it has no
  samples either).
\<close>

lemma rank_without_samples_contributes_zero:
  "pipeline_ok e w \<and> transport_selected e w \<and> z < length w \<and> numSamples (hdr (w ! z)) = 0 \<longrightarrow>
     list_all (\<lambda>g. list_all (\<lambda>x. x = 0) (Data g)) (grads (zero_if_no_samples (w ! z))) \<and>
     (\<exists>w'. AggregateGradientsImpl e ord w = Inr w' \<and> length w' = length w \<and>
        (\<forall>r < length w. \<forall>i < length (grads (w ! r)). \<forall>k < GetNumElements (grads (w ! r) ! i).
           Data (grads (w' ! r) ! i) ! k =
             (\<Sum>p\<leftarrow>take z w @ drop (Suc z) w.
                if numSamples (hdr p) = 0 then 0 else Data (grads p ! i) ! k)))"
proof (intro impI conjI)
  assume a: "pipeline_ok e w \<and> transport_selected e w \<and> z < length w \<and> numSamples (hdr (w ! z)) = 0"
  note ok = a [THEN conjunct1]
  note ts = a [THEN conjunct2, THEN conjunct1]
  note z = a [THEN conjunct2, THEN conjunct2, THEN conjunct1]
  note n = a [THEN conjunct2, THEN conjunct2, THEN conjunct2]
  show "list_all (\<lambda>g. list_all (\<lambda>x. x = 0) (Data g)) (grads (zero_if_no_samples (w ! z)))"
    using n by (simp add: zero_if_no_samples_def SetValue_def list_all_iff)
  from AggregateGradientsImpl_sums [OF ok, of ord] obtain w' ms where
    h: "AggregateGradientsImpl e ord w = Inr w' \<and> length w' = length w \<and>
           mset ms = mset (take (MainNodeRank e) (map hdr w) @ drop (Suc (MainNodeRank e)) (map hdr w)) \<and>
           (\<forall>r < length w.
              hdr (w' ! r) = foldl Aggregate (hdr (w ! MainNodeRank e)) ms \<and>
              length (grads (w' ! r)) = length (grads (w ! r)) \<and>
              (transport_selected e w \<longrightarrow>
                 (\<forall>i < length (grads (w ! r)).
                    length (Data (grads (w' ! r) ! i)) = GetNumElements (grads (w ! r) ! i) \<and>
                    (\<forall>k < GetNumElements (grads (w ! r) ! i).
                       Data (grads (w' ! r) ! i) ! k =
                         (\<Sum>p\<leftarrow>w. if numSamples (hdr p) = 0 then 0 else Data (grads p ! i) ! k)))))"
    by (elim exE)
  note hall = h [THEN conjunct2, THEN conjunct2, THEN conjunct2, rule_format]
  have split: "(\<Sum>p\<leftarrow>w. if numSamples (hdr p) = 0 then 0 else Data (grads p ! i) ! k) =
               (\<Sum>p\<leftarrow>take z w @ drop (Suc z) w.
                  if numSamples (hdr p) = 0 then 0 else Data (grads p ! i) ! k)" for i k
    using sum_list_split_at [OF z,
        of "\<lambda>p. if numSamples (hdr p) = 0 then 0 else Data (grads p ! i) ! k"] n
    by simp
  show "\<exists>w'. AggregateGradientsImpl e ord w = Inr w' \<and> length w' = length w \<and>
        (\<forall>r < length w. \<forall>i < length (grads (w ! r)). \<forall>k < GetNumElements (grads (w ! r) ! i).
           Data (grads (w' ! r) ! i) ! k =
             (\<Sum>p\<leftarrow>take z w @ drop (Suc z) w.
                if numSamples (hdr p) = 0 then 0 else Data (grads p ! i) ! k))"
  proof (intro exI conjI allI impI)
    show "AggregateGradientsImpl e ord w = Inr w'"
      by (rule h [THEN conjunct1])
    show "length w' = length w"
      by (rule h [THEN conjunct2, THEN conjunct1])
  next
    fix r i k
    assume "r < length w" "i < length (grads (w ! r))" "k < GetNumElements (grads (w ! r) ! i)"
    then have "Data (grads (w' ! r) ! i) ! k =
            (\<Sum>p\<leftarrow>w. if numSamples (hdr p) = 0 then 0 else Data (grads p ! i) ! k)"
      using hall [of r, THEN conjunct2, THEN conjunct2, rule_format, OF _ ts, of i] by simp
    then show "Data (grads (w' ! r) ! i) ! k =
            (\<Sum>p\<leftarrow>take z w @ drop (Suc z) w.
               if numSamples (hdr p) = 0 then 0 else Data (grads p ! i) ! k)"
      unfolding split .
  qed
qed

text \<open>
  Claim C5 (the code departs from it). Two ranks run with GPU-direct RDMA and without
  NCCL, and their gradients are on the CPU. The first rank holds (1, 2, 3, 4) and a
  header without samples, all of whose fields are zero; the second holds (5, 6, 7, 8)
  and a header with 5 samples. The synchronous call gets past ResetState into a state on
  which the pipeline can run, and it returns. The gradient of the first rank has been set
  to zero, but nothing has been reduced: the loop of the second branch of
  AggregateGradientsImpl has a case for a run without GPU-direct RDMA and a case for a
  gradient on a GPU, and none for this combination. So the rank without samples ends
  with (0, 0, 0, 0) and not with (5, 6, 7, 8), the sum of the gradients of the other
  ranks.
\<close>

theorem C5_nothing_reduced_with_gpu_direct_on_cpu:
  "map_sum id (\<lambda>w1. pipeline_ok (example_env True False) (map caller_view w1) \<and>
                    map (\<lambda>k. numSamples (headerCPU k)) w1 = [0, 5])
     (entered (example_env True False) False
        [example_cpu_rank 0 0 [1, 2, 3, 4], example_cpu_rank 5 1 [5, 6, 7, 8]]) = Inr True \<and>
   map_sum id (\<lambda>r. map (\<lambda>k. map (\<lambda>g. Data (snd g)) (gradients k)) (snd r))
     (AggregateGradients (example_env True False) [] False
        [example_cpu_rank 0 0 [1, 2, 3, 4], example_cpu_rank 5 1 [5, 6, 7, 8]]) =
   Inr [[[0, 0, 0, 0]], [[5, 6, 7, 8]]]"
proof (rule conjI)
  show "map_sum id (\<lambda>w1. pipeline_ok (example_env True False) (map caller_view w1) \<and>
                    map (\<lambda>k. numSamples (headerCPU k)) w1 = [0, 5])
     (entered (example_env True False) False
        [example_cpu_rank 0 0 [1, 2, 3, 4], example_cpu_rank 5 1 [5, 6, 7, 8]]) = Inr True"
    by (simp add: example_cpu_rank_def eval_defs)
  show "map_sum id (\<lambda>r. map (\<lambda>k. map (\<lambda>g. Data (snd g)) (gradients k)) (snd r))
     (AggregateGradients (example_env True False) [] False
        [example_cpu_rank 0 0 [1, 2, 3, 4], example_cpu_rank 5 1 [5, 6, 7, 8]]) =
   Inr [[[0, 0, 0, 0]], [[5, 6, 7, 8]]]"
    by (simp add: AggregateGradients_def AggregateGradients_sync_def AggregateGradientsImpl_def
        store_caller_def zero_if_no_samples_def pack_rank_def unpack_rank_def assign_columns_def
        column_slice_def reduce_gradients_def gradients_tag_def example_cpu_rank_def
        write_buffer.simps wait_headers.simps eval_defs)
qed

theorem C5_witness:
  "\<exists>rets w'.
     AggregateGradients (example_env True False) [] False
       [example_cpu_rank 0 0 [1, 2, 3, 4], example_cpu_rank 5 1 [5, 6, 7, 8]] = Inr (rets, w') \<and>
     map (\<lambda>k. map (\<lambda>g. Data (snd g)) (gradients k)) w' = [[[0, 0, 0, 0]], [[5, 6, 7, 8]]]"
proof (cases "AggregateGradients (example_env True False) [] False
       [example_cpu_rank 0 0 [1, 2, 3, 4], example_cpu_rank 5 1 [5, 6, 7, 8]]")
  case (Inl err)
  then show ?thesis
    using C5_nothing_reduced_with_gpu_direct_on_cpu [THEN conjunct2] by simp
next
  case (Inr r)
  obtain rets w' where r: "r = (rets, w')"
    by (cases r)
  show ?thesis
    using C5_nothing_reduced_with_gpu_direct_on_cpu [THEN conjunct2] unfolding Inr r by simp
qed

section \<open>The claims on the header and the return value\<close>

lemma folded_numSamples:
  assumes "main < length hs" and "mset ms = mset (take main hs @ drop (Suc main) hs)"
  shows "numSamples (foldl Aggregate (hs ! main) ms) = sum_list (map numSamples hs)"
  using sum_list_mset_cong [OF assms(2), of numSamples] sum_list_split_at [OF assms(1), of numSamples]
  by (simp add: foldl_Aggregate_fields)




text \<open>A sum of 64-bit counts that does not wrap around is zero only if every count is.\<close>

lemma unat_sum_list:
  fixes ws :: "64 word list"
  assumes "sum_list (map unat ws) < 2 ^ 64"
  shows "unat (sum_list ws) = sum_list (map unat ws)"
  using assms
proof (induction ws)
  case Nil
  then show ?case by simp
next
  case (Cons a ws)
  then have s: "sum_list (map unat ws) < 2 ^ 64" and t: "unat a + sum_list (map unat ws) < 2 ^ 64"
    by simp_all
  have "unat (a + sum_list ws) = unat a + unat (sum_list ws)"
    using t Cons.IH [OF s] by (simp add: unat_add_lem [THEN iffD1])
  then show ?case
    using Cons.IH [OF s] by simp
qed

lemma sum_list_words_zero:
  fixes ws :: "64 word list"
  assumes "sum_list (map unat ws) < 2 ^ 64"
  shows "(sum_list ws \<noteq> 0) = list_ex (\<lambda>x. x \<noteq> 0) ws"
proof -
  have "(sum_list ws = 0) = (unat (sum_list ws) = 0)"
    by (simp add: unat_eq_zero)
  also have "\<dots> = (sum_list (map unat ws) = 0)"
    unfolding unat_sum_list [OF assms] ..
  also have "\<dots> = (\<forall>x \<in> set ws. x = 0)"
    by (simp add: unat_eq_zero)
  finally show ?thesis
    by (simp add: list_ex_iff)
qed

text \<open>
  Claim C3. With one rank, AggregateGradients returns at once whether the header has
  samples, and leaves the rank as it is. A synchronous call with more than one rank that
  gets past ResetState into a state on which the pipeline can run returns, on every
  rank, whether the aggregated header has samples; its sample count is the sum, in 64-bit
  arithmetic, of the sample counts of all ranks, so unless that sum wraps around, the
  call returns true exactly when some rank has samples. An asynchronous call with more than one
  rank that returns has, on every rank, returned true exactly when the rank dispatched a
  reduction, that is when reset_state is set or the header that was swapped in (the
  shadow header after the wait for the previous reduction) has samples, and false
  otherwise.
\<close>

theorem C3_return_value:
  "AggregateGradients e ord resetState [k] = Inr ([numSamples (headerCPU k) \<noteq> 0], [k]) \<and>
   (length w \<noteq> 1 \<and> entered e resetState w = Inr w1 \<and>
    list_all (\<lambda>k. \<not> m_useAsyncAggregation (aggr k)) w1 \<and>
    pipeline_ok e (map caller_view w1) \<longrightarrow>
      (\<exists>rets w'. AggregateGradients e ord resetState w = Inr (rets, w') \<and>
         length rets = length w \<and> length w' = length w \<and>
         (\<forall>r < length w.
            rets ! r = (numSamples (headerCPU (w' ! r)) \<noteq> 0) \<and>
            numSamples (headerCPU (w' ! r)) = sum_list (map (\<lambda>k. numSamples (headerCPU k)) w) \<and>
            (sum_list (map (\<lambda>k. unat (numSamples (headerCPU k))) w) < 2 ^ 64 \<longrightarrow>
               rets ! r = list_ex (\<lambda>k. numSamples (headerCPU k) \<noteq> 0) w)))) \<and>
   (length w \<noteq> 1 \<and> w \<noteq> [] \<and> list_all (\<lambda>k. m_useAsyncAggregation (aggr k)) w \<and>
    AggregateGradients e ord resetState w = Inr (rets, w') \<longrightarrow>
      length rets = length w' \<and>
      (\<exists>w1 wj. entered e resetState w = Inr w1 \<and> join_pending e ord w1 = Inr wj \<and>
         (\<forall>r < length w'.
            m_bufferedGradHeader (aggr (wj ! r)) = Some (headerCPU (w' ! r)) \<and>
            rets ! r = (resetState \<or> numSamples (headerCPU (w' ! r)) \<noteq> 0) \<and>
            rets ! r = (m_pendingAsyncAggregation (aggr (w' ! r)) \<noteq> None))))"
proof (intro conjI impI)
  show "AggregateGradients e ord resetState [k] = Inr ([numSamples (headerCPU k) \<noteq> 0], [k])"
    by (simp add: AggregateGradients_def)
next
  assume a: "length w \<noteq> 1 \<and> entered e resetState w = Inr w1 \<and>
    list_all (\<lambda>k. \<not> m_useAsyncAggregation (aggr k)) w1 \<and>
    pipeline_ok e (map caller_view w1)"
  note n1 = a [THEN conjunct1]
  note en = a [THEN conjunct2, THEN conjunct1]
  note ok = a [THEN conjunct2, THEN conjunct2, THEN conjunct2]
  from a have sy: "\<forall>k \<in> set w1. \<not> m_useAsyncAggregation (aggr k)"
    by (simp add: list_all_iff)
  have mn: "MainNodeRank e < length (map headerCPU w)"
    using pipeline_ok_facts(1) [OF ok] entered_keeps(1) [OF en] by simp
  from AggregateGradients_sync_result [OF n1 en sy ok, of ord] obtain rets w' ms where
    h: "AggregateGradients e ord resetState w = Inr (rets, w') \<and>
           length w' = length w \<and> length rets = length w \<and>
           mset ms = mset (take (MainNodeRank e) (map headerCPU w) @
                           drop (Suc (MainNodeRank e)) (map headerCPU w)) \<and>
           (\<forall>r < length w.
              headerCPU (w' ! r) = foldl Aggregate (headerCPU (w ! MainNodeRank e)) ms \<and>
              rets ! r = (numSamples (headerCPU (w' ! r)) \<noteq> 0) \<and>
              map fst (gradients (w' ! r)) = map fst (gradients (w ! r)) \<and>
              (transport_selected e (map caller_view w1) \<longrightarrow>
                 (\<forall>i < length (gradients (w ! r)).
                    length (Data (snd (gradients (w' ! r) ! i))) =
                      GetNumElements (snd (gradients (w ! r) ! i)) \<and>
                    (\<forall>k < GetNumElements (snd (gradients (w ! r) ! i)).
                       Data (snd (gradients (w' ! r) ! i)) ! k =
                         (\<Sum>p\<leftarrow>w. if numSamples (headerCPU p) = 0 then 0
                                   else Data (snd (gradients p ! i)) ! k)))))"
    by (elim exE)
  note ms = h [THEN conjunct2, THEN conjunct2, THEN conjunct2, THEN conjunct1]
  note hall = h [THEN conjunct2, THEN conjunct2, THEN conjunct2, THEN conjunct2, rule_format]
  have s: "numSamples (foldl Aggregate (headerCPU (w ! MainNodeRank e)) ms) =
             sum_list (map (\<lambda>k. numSamples (headerCPU k)) w)"
    using folded_numSamples [OF mn ms] mn by (simp add: comp_def)
  have z: "(sum_list (map (\<lambda>k. numSamples (headerCPU k)) w) \<noteq> 0) =
             list_ex (\<lambda>k. numSamples (headerCPU k) \<noteq> 0) w"
    if "sum_list (map (\<lambda>k. unat (numSamples (headerCPU k))) w) < 2 ^ 64"
    using sum_list_words_zero [of "map (\<lambda>k. numSamples (headerCPU k)) w"] that
    by (simp add: comp_def list_ex_iff)
  show "\<exists>rets w'. AggregateGradients e ord resetState w = Inr (rets, w') \<and>
         length rets = length w \<and> length w' = length w \<and>
         (\<forall>r < length w.
            rets ! r = (numSamples (headerCPU (w' ! r)) \<noteq> 0) \<and>
            numSamples (headerCPU (w' ! r)) = sum_list (map (\<lambda>k. numSamples (headerCPU k)) w) \<and>
            (sum_list (map (\<lambda>k. unat (numSamples (headerCPU k))) w) < 2 ^ 64 \<longrightarrow>
               rets ! r = list_ex (\<lambda>k. numSamples (headerCPU k) \<noteq> 0) w))"
  proof (intro exI conjI allI impI)
    show "AggregateGradients e ord resetState w = Inr (rets, w')"
      by (rule h [THEN conjunct1])
    show "length rets = length w"
      by (rule h [THEN conjunct2, THEN conjunct2, THEN conjunct1])
    show "length w' = length w"
      by (rule h [THEN conjunct2, THEN conjunct1])
  next
    fix r assume "r < length w"
    then show "rets ! r = (numSamples (headerCPU (w' ! r)) \<noteq> 0)"
      by (rule hall [THEN conjunct2, THEN conjunct1])
  next
    fix r assume "r < length w"
    then have "headerCPU (w' ! r) = foldl Aggregate (headerCPU (w ! MainNodeRank e)) ms"
      by (rule hall [THEN conjunct1])
    then show "numSamples (headerCPU (w' ! r)) = sum_list (map (\<lambda>k. numSamples (headerCPU k)) w)"
      using s by simp
  next
    fix r
    assume r: "r < length w"
      and o: "sum_list (map (\<lambda>k. unat (numSamples (headerCPU k))) w) < 2 ^ 64"
    have "headerCPU (w' ! r) = foldl Aggregate (headerCPU (w ! MainNodeRank e)) ms"
      using r by (rule hall [THEN conjunct1])
    then have "numSamples (headerCPU (w' ! r)) = sum_list (map (\<lambda>k. numSamples (headerCPU k)) w)"
      using s by simp
    moreover have "rets ! r = (numSamples (headerCPU (w' ! r)) \<noteq> 0)"
      using r by (rule hall [THEN conjunct2, THEN conjunct1])
    ultimately show "rets ! r = list_ex (\<lambda>k. numSamples (headerCPU k) \<noteq> 0) w"
      using z [OF o] by simp
  qed
next
  assume a: "length w \<noteq> 1 \<and> w \<noteq> [] \<and> list_all (\<lambda>k. m_useAsyncAggregation (aggr k)) w \<and>
    AggregateGradients e ord resetState w = Inr (rets, w')"
  then have as: "\<forall>k \<in> set w. m_useAsyncAggregation (aggr k)"
    by (simp add: list_all_iff)
  from AggregateGradients_async_path [OF a [THEN conjunct1] a [THEN conjunct2, THEN conjunct1] as
      a [THEN conjunct2, THEN conjunct2, THEN conjunct2]]
  obtain w1 where en: "entered e resetState w = Inr w1"
    and r: "AggregateGradients_async e ord resetState w1 = Inr (rets, w')"
    by blast
  from AggregateGradients_async_returns [OF r] obtain wj where
    j: "join_pending e ord w1 = Inr wj \<and> length rets = length w' \<and> length wj = length w' \<and>
           (\<forall>r < length w'.
              m_bufferedGradHeader (aggr (wj ! r)) = Some (headerCPU (w' ! r)) \<and>
              rets ! r = (resetState \<or> numSamples (headerCPU (w' ! r)) \<noteq> 0) \<and>
              rets ! r = (m_pendingAsyncAggregation (aggr (w' ! r)) \<noteq> None))"
    by (elim exE)
  show "length rets = length w'"
    by (rule j [THEN conjunct2, THEN conjunct1])
  show "\<exists>w1 wj. entered e resetState w = Inr w1 \<and> join_pending e ord w1 = Inr wj \<and>
         (\<forall>r < length w'.
            m_bufferedGradHeader (aggr (wj ! r)) = Some (headerCPU (w' ! r)) \<and>
            rets ! r = (resetState \<or> numSamples (headerCPU (w' ! r)) \<noteq> 0) \<and>
            rets ! r = (m_pendingAsyncAggregation (aggr (w' ! r)) \<noteq> None))"
    by (rule exI [of _ w1], rule exI [of _ wj], intro conjI)
      (fact en j [THEN conjunct1] j [THEN conjunct2, THEN conjunct2, THEN conjunct2])+
qed

theorem C3_witness:
  "\<exists>rets w' retsa wa.
     AggregateGradients (example_env False False) [] False
       [example_rank False 10 [1, 2, 3, 4], example_rank False 5 [5, 6, 7, 8]] = Inr (rets, w') \<and>
     numSamples (headerCPU (w' ! 0)) = 15 \<and> rets ! 0 = True \<and>
     AggregateGradients (example_env False False) [] True
       [example_rank True 10 [1, 2, 3, 4], example_rank True 5 [5, 6, 7, 8]] = Inr (retsa, wa) \<and>
     retsa ! 0 = True \<and> m_pendingAsyncAggregation (aggr (wa ! 0)) \<noteq> None"
proof -
  let ?e = "example_env False False"
  let ?w = "[example_rank False 10 [1, 2, 3, 4], example_rank False 5 [5, 6, 7, 8]]"
  let ?wa = "[example_rank True 10 [1, 2, 3, 4], example_rank True 5 [5, 6, 7, 8]]"
  from example_sync_entered [of False False 10 5] obtain w1 where
    x: "entered ?e False ?w = Inr w1 \<and>
         list_all (\<lambda>k. \<not> m_useAsyncAggregation (aggr k)) w1 \<and>
         pipeline_ok ?e (map caller_view w1) \<and>
         transport_selected ?e (map caller_view w1) \<and>
         map hdr (map caller_view w1) = [example_header 10 1, example_header 5 1] \<and>
         map grads (map caller_view w1) =
           [[example_matrix 2 2 0 [1, 2, 3, 4]], [example_matrix 2 2 0 [5, 6, 7, 8]]]"
    by (elim exE)
  note en = x [THEN conjunct1]
  note sy = x [THEN conjunct2, THEN conjunct1]
  note ok = x [THEN conjunct2, THEN conjunct2, THEN conjunct1]
  from example_async_first_call obtain retsa wa where
    y: "AggregateGradients ?e [] True ?wa = Inr (retsa, wa) \<and>
        wa \<noteq> [] \<and> length wa \<noteq> 1 \<and>
        list_all (\<lambda>k. m_initialized (aggr k) \<and> m_useAsyncAggregation (aggr k) \<and>
                   m_pendingAsyncAggregation (aggr k) \<noteq> None) wa"
    by (elim exE)
  note ra = y [THEN conjunct1]
  have la: "0 < length wa"
    using y [THEN conjunct2, THEN conjunct1] by simp
  have n2: "length ?w \<noteq> 1"
    by simp
  have c2: "length ?w \<noteq> 1 \<and> entered ?e False ?w = Inr w1 \<and>
    list_all (\<lambda>k. \<not> m_useAsyncAggregation (aggr k)) w1 \<and>
    pipeline_ok ?e (map caller_view w1)"
    by (intro conjI) (fact n2 en sy ok)+
  note T = C3_return_value [where e = ?e and ord = "[]"]
  from T [where w = ?w and resetState = False and ?w1.0 = w1, THEN conjunct2, THEN conjunct1,
      rule_format, OF c2]
  obtain rets w' where
    dg: "AggregateGradients ?e [] False ?w = Inr (rets, w') \<and>
         length rets = length ?w \<and> length w' = length ?w \<and>
         (\<forall>r < length ?w.
            rets ! r = (numSamples (headerCPU (w' ! r)) \<noteq> 0) \<and>
            numSamples (headerCPU (w' ! r)) = sum_list (map (\<lambda>k. numSamples (headerCPU k)) ?w) \<and>
            (sum_list (map (\<lambda>k. unat (numSamples (headerCPU k))) ?w) < 2 ^ 64 \<longrightarrow>
               rets ! r = list_ex (\<lambda>k. numSamples (headerCPU k) \<noteq> 0) ?w))"
    by (elim exE)
  note d = dg [THEN conjunct1]
  note g = dg [THEN conjunct2, THEN conjunct2, THEN conjunct2]
  have i0: "0 < length ?w"
    by simp
  have d15: "numSamples (headerCPU (w' ! 0)) = 15"
    using g [rule_format, OF i0, THEN conjunct2, THEN conjunct1]
    by (simp add: example_rank_def example_header_def)
  have o: "sum_list (map (\<lambda>k. unat (numSamples (headerCPU k))) ?w) < 2 ^ 64"
    by (simp add: example_rank_def example_header_def)
  have dT: "rets ! 0 = True"
    using g [rule_format, OF i0, THEN conjunct2, THEN conjunct2, rule_format, OF o]
    by (simp add: example_rank_def example_header_def)
  have n3: "length ?wa \<noteq> 1" "?wa \<noteq> []"
    by simp_all
  have aw: "list_all (\<lambda>k. m_useAsyncAggregation (aggr k)) ?wa"
    by (simp add: example_rank_def SimpleDistGradAggregator_def)
  have c3: "length ?wa \<noteq> 1 \<and> ?wa \<noteq> [] \<and> list_all (\<lambda>k. m_useAsyncAggregation (aggr k)) ?wa \<and>
    AggregateGradients ?e [] True ?wa = Inr (retsa, wa)"
    by (intro conjI) (fact n3 aw ra)+
  from T [where w = ?wa and resetState = True and rets = retsa and w' = wa,
      THEN conjunct2, THEN conjunct2, rule_format, OF c3, THEN conjunct2]
  obtain w1a wj where
    u: "entered ?e True ?wa = Inr w1a \<and> join_pending ?e [] w1a = Inr wj \<and>
         (\<forall>r < length wa.
            m_bufferedGradHeader (aggr (wj ! r)) = Some (headerCPU (wa ! r)) \<and>
            retsa ! r = (True \<or> numSamples (headerCPU (wa ! r)) \<noteq> 0) \<and>
            retsa ! r = (m_pendingAsyncAggregation (aggr (wa ! r)) \<noteq> None))"
    by (elim exE)
  note e3 = u [THEN conjunct2, THEN conjunct2]
  have aT: "retsa ! 0 = True"
    using e3 [rule_format, OF la, THEN conjunct2, THEN conjunct1] by simp
  have aP: "m_pendingAsyncAggregation (aggr (wa ! 0)) \<noteq> None"
    using e3 [rule_format, OF la, THEN conjunct2, THEN conjunct2] aT by simp
  show ?thesis
    by (rule exI [of _ rets], rule exI [of _ w'], rule exI [of _ retsa], rule exI [of _ wa],
        intro conjI)
      (fact d d15 dT ra aT aP)+
qed

end
